theory Spec2Isabelle
  imports Main "HOL-Library.AList" "HOL-Library.Sublist"
begin

section \<open>Time and dates\<close>

text \<open>
  Instants are milliseconds since the epoch, as \<open>Date.now()\<close> returns them. A JavaScript
  \<open>Date\<close> holds either such an instant, of magnitude at most 8640000000000000, or no
  instant at all (an invalid date); \<open>new Date(t)\<close> clips a number outside that range to
  the invalid date. Every relational comparison with an invalid date is false. All instants
  inside the range are integers below \<open>2 ^ 53\<close>, where the arithmetic of JavaScript
  numbers is exact, so they are modelled by \<open>int\<close>.
\<close>

datatype date = Invalid | Valid int

definition MAX_TIME :: int where
  "MAX_TIME = 8640000000000000"

definition new_Date :: "int \<Rightarrow> date" where
  "new_Date t = (if - MAX_TIME \<le> t \<and> t \<le> MAX_TIME then Valid t else Invalid)"

fun date_lt :: "date \<Rightarrow> date \<Rightarrow> bool" where
  "date_lt (Valid a) (Valid b) = (a < b)"
| "date_lt _ _ = False"

fun date_ge :: "date \<Rightarrow> date \<Rightarrow> bool" where
  "date_ge (Valid a) (Valid b) = (b \<le> a)"
| "date_ge _ _ = False"

fun date_gt :: "date \<Rightarrow> date \<Rightarrow> bool" where
  "date_gt (Valid a) (Valid b) = (b < a)"
| "date_gt _ _ = False"

text \<open>
  A JavaScript number as this program meets it: the result of \<open>parseInt\<close>, an integer or
  \<open>NaN\<close>. An optional parameter that was not passed is \<open>None\<close>.
\<close>

datatype js_number = NaN | Num int

datatype error = TypeError | SyntaxError | RangeError
  | MissingAuthorization | InvalidAuthorizationFormat | InvalidAccessKey

section \<open>The key manager (keyManager.ts)\<close>

text \<open>
  \<open>disabledUntil\<close> is a JavaScript \<open>Map\<close>: insertion-ordered, keys unique. It is an
  association list; \<open>AList.update\<close> overwrites in place or appends, \<open>AList.delete\<close>
  removes, \<open>map_of\<close> looks up, as \<open>set\<close>, \<open>delete\<close> and \<open>get\<close> do.
  \<open>lockPromise\<close> is \<open>True\<close> while a promise is stored in the field.
\<close>

record key_manager =
  keys :: "string list"
  cooldownSeconds :: int
  currentIndex :: nat
  disabledUntil :: "(string \<times> date) list"
  lockPromise :: bool

definition constructor :: "string list \<Rightarrow> int \<Rightarrow> key_manager option" where
  \<comment> \<open>\<open>None\<close>: the process exits, no key manager exists.\<close>
  "constructor ks cd =
     (if ks = [] then None
      else Some \<lparr>keys = ks, cooldownSeconds = cd, currentIndex = 0,
                 disabledUntil = [], lockPromise = False\<rparr>)"

text \<open>
  The preventive cooldown of \<open>getNextKey\<close>: \<open>setSeconds(getSeconds() + cooldownSeconds)\<close>
  on a fresh date. \<open>setSeconds\<close> works on the local time: it turns the instant into local
  time, replaces the seconds, and turns the result back, each way with the offset of the
  local time zone that is in force there. That offset is a parameter of the model,
  \<open>LocalTZA t isUTC\<close> as the language defines it: the offset at the instant \<open>t\<close> when
  \<open>isUTC\<close>, at the local time \<open>t\<close> otherwise. The cooldown is a whole number of seconds.
\<close>

type_synonym zone = "int \<Rightarrow> bool \<Rightarrow> int"

definition LocalTime :: "zone \<Rightarrow> int \<Rightarrow> int" where
  "LocalTime LocalTZA t = t + LocalTZA t True"

definition UTC :: "zone \<Rightarrow> int \<Rightarrow> int" where
  "UTC LocalTZA t = t - LocalTZA t False"

definition setSeconds :: "zone \<Rightarrow> int \<Rightarrow> int \<Rightarrow> date" where
  \<comment> \<open>the date \<open>now\<close> after \<open>setSeconds(getSeconds() + cd)\<close>\<close>
  "setSeconds LocalTZA now cd = new_Date (UTC LocalTZA (LocalTime LocalTZA now + cd * 1000))"

definition setCooldown :: "zone \<Rightarrow> int \<Rightarrow> int \<Rightarrow> string \<Rightarrow> key_manager \<Rightarrow> key_manager" where
  "setCooldown tz now cd key km =
     (if cd > 0
      then km\<lparr>disabledUntil := AList.update key (setSeconds tz now cd) (disabledUntil km)\<rparr>
      else km)"

text \<open>
  The \<open>for\<close> loop of \<open>getNextKey\<close>, with the number of iterations left. The loop runs
  without suspension, so one reading \<open>now\<close> of the clock serves the whole scan. The index
  is always below the number of keys (it starts at 0 and is only assigned a remainder modulo
  that number), see \<open>scan_index_bound\<close>.
\<close>

fun scan :: "zone \<Rightarrow> int \<Rightarrow> int \<Rightarrow> nat \<Rightarrow> key_manager \<Rightarrow> string option \<times> key_manager" where
  "scan tz now cd 0 km = (None, km)"
| "scan tz now cd (Suc n) km =
     (let key = keys km ! currentIndex km;
          km1 = km\<lparr>currentIndex := (currentIndex km + 1) mod length (keys km)\<rparr>
      in case map_of (disabledUntil km1) key of
           Some d \<Rightarrow>
             if date_ge (Valid now) d
             then (Some key,
                   setCooldown tz now cd key
                     (km1\<lparr>disabledUntil := AList.delete key (disabledUntil km1)\<rparr>))
             else scan tz now cd n km1
         | None \<Rightarrow> (Some key, setCooldown tz now cd key km1))"

text \<open>
  After a scan that found nothing: the earliest date of the map, by the \<open>reduce\<close> of the
  source (from the latest representable date), and the time to wait.
\<close>

definition soonestAvailable :: "key_manager \<Rightarrow> date" where
  "soonestAvailable km =
     fold (\<lambda>current earliest. if date_lt current earliest then current else earliest)
       (map snd (disabledUntil km)) (Valid MAX_TIME)"

definition waitMs :: "int \<Rightarrow> key_manager \<Rightarrow> int" where
  "waitMs now km =
     (case soonestAvailable km of Valid t \<Rightarrow> max 0 (t - now) | Invalid \<Rightarrow> 0)"

text \<open>
  One attempt of \<open>getNextKey\<close>: take the lock, scan; either return the key (the
  \<open>finally\<close> block releases the lock) or release the lock and ask to sleep.
\<close>

datatype attempt = Got string (pool_of: key_manager) | Sleep int (pool_of: key_manager)

definition attempt :: "zone \<Rightarrow> int \<Rightarrow> int \<Rightarrow> key_manager \<Rightarrow> attempt" where
  "attempt tz now cd km =
     (case scan tz now cd (length (keys km)) (km\<lparr>lockPromise := True\<rparr>) of
        (Some key, km') \<Rightarrow> Got key (km'\<lparr>lockPromise := False\<rparr>)
      | (None, km') \<Rightarrow> Sleep (waitMs now km') (km'\<lparr>lockPromise := False\<rparr>))"

text \<open>
  \<open>disableKey\<close>. The reset time is optional; \<open>if (resetTimeMs)\<close> is false for a missing
  one, for \<open>NaN\<close> and for 0. \<open>resetTimeMs > Date.now() / 1000\<close> compares with the
  exact quotient, which for an integer on the left is \<open>resetTimeMs * 1000 > now\<close>.
\<close>

definition resetDatetime :: "int \<Rightarrow> int \<Rightarrow> date" where
  "resetDatetime now r =
     (if r > now then new_Date r
      else if r * 1000 > now then new_Date r
      else new_Date (r * 1000))"

definition resolveDisabledUntil :: "int \<Rightarrow> int \<Rightarrow> js_number option \<Rightarrow> date" where
  "resolveDisabledUntil now cd resetTimeMs =
     (case resetTimeMs of
        Some (Num r) \<Rightarrow>
          if r \<noteq> 0
          then (if date_gt (resetDatetime now r) (Valid now)
                then resetDatetime now r
                else new_Date (now + cd * 1000))
          else new_Date (now + cd * 1000)
      | _ \<Rightarrow> new_Date (now + cd * 1000))"

text \<open>
  The entry is stored first; the log line after it calls \<open>toISOString\<close>, which throws a
  \<open>RangeError\<close> on an invalid date. The \<open>finally\<close> block releases the lock either way.
\<close>

definition disableKey :: "int \<Rightarrow> string \<Rightarrow> js_number option \<Rightarrow> key_manager \<Rightarrow> error option \<times> key_manager" where
  "disableKey now key resetTimeMs km =
     (let d = resolveDisabledUntil now (cooldownSeconds km) resetTimeMs;
          km' = km\<lparr>disabledUntil := AList.update key d (disabledUntil km), lockPromise := False\<rparr>
      in (if d = Invalid then Some RangeError else None, km'))"

text \<open>
  The timer of the platform: \<open>setTimeout(f, after)\<close> waits \<open>after\<close> milliseconds when
  that is between 1 and \<open>2 ^ 31 - 1\<close>, and one millisecond otherwise.
\<close>

definition TIMEOUT_MAX :: int where
  "TIMEOUT_MAX = 2147483647"

definition setTimeout_delay :: "int \<Rightarrow> int" where
  "setTimeout_delay after = (if 1 \<le> after \<and> after \<le> TIMEOUT_MAX then after else 1)"

text \<open>
  \<open>getNextKey\<close> with its retries. The program runs on one thread and neither operation
  suspends between taking and releasing the lock, so whatever other requests do to the pool
  happens, as whole operations, while this caller is suspended. One element of the schedule
  describes one sleep: how late the timer fires after its delay, and the operations of other
  requests in the meantime, each with the instant it runs at. The result is the key with the
  instant of the scan that returned it, or \<open>None\<close> for a caller still suspended when the
  schedule ends, and the state of the pool at that point.
\<close>

datatype other = OtherDisable int string "js_number option" | OtherAttempt int int

fun run_other :: "zone \<Rightarrow> other \<Rightarrow> key_manager \<Rightarrow> key_manager" where
  "run_other tz (OtherDisable t key resetTimeMs) km = snd (disableKey t key resetTimeMs km)"
| "run_other tz (OtherAttempt t cd) km = pool_of (attempt tz t cd km)"

fun getNextKey :: "zone \<Rightarrow> (nat \<times> other list) list \<Rightarrow> int \<Rightarrow> int \<Rightarrow> key_manager \<Rightarrow> (string \<times> int) option \<times> key_manager" where
  "getNextKey tz sched now cd km =
     (case attempt tz now cd km of
        Got key km' \<Rightarrow> (Some (key, now), km')
      | Sleep w km' \<Rightarrow>
          (case sched of
             [] \<Rightarrow> (None, km')
           | (late, others) # rest \<Rightarrow>
               getNextKey tz rest (now + setTimeout_delay w + int late) cd
                 (fold (run_other tz) others km')))"

text \<open>
  A run of scans of \<open>getNextKey\<close>, each given by the instant it runs at and the
  cooldown argument of its call, the first scan of a call and the scan after a sleep alike,
  with what each gives: the key, or \<open>None\<close> when the caller goes to sleep.
\<close>

fun acquire_all :: "zone \<Rightarrow> (int \<times> int) list \<Rightarrow> key_manager \<Rightarrow> string option list \<times> key_manager" where
  "acquire_all tz [] km = ([], km)"
| "acquire_all tz ((now, cd) # calls) km =
     (let a = attempt tz now cd km; r = acquire_all tz calls (pool_of a)
      in ((case a of Got key km' \<Rightarrow> Some key | Sleep w km' \<Rightarrow> None) # fst r, snd r))"

text \<open>
  A credential is eligible at an instant when the scan's test lets it through: it has no
  entry, or the instant has reached its entry.
\<close>

definition eligible :: "int \<Rightarrow> key_manager \<Rightarrow> string \<Rightarrow> bool" where
  "eligible now km k =
     (case map_of (disabledUntil km) k of None \<Rightarrow> True | Some d \<Rightarrow> date_ge (Valid now) d)"

section \<open>Values of the language and of JSON\<close>

text \<open>
  What \<open>JSON.parse\<close> returns. A number is a double: \<open>Double m e\<close> is the finite
  number \<open>m * 2 ^ e\<close> (zero, of either sign, when \<open>m = 0\<close>), and the text \<open>1e999\<close>
  parses to an infinity. An object is the list of its properties in insertion order. A value
  that may be \<open>undefined\<close> is a \<open>jsval\<close>.
\<close>

datatype double = Double int int | PlusInfinity | MinusInfinity

datatype json = JNull | JBool bool | JNum double | JStr string
  | JArr "json list" | JObj "(string \<times> json) list"

datatype jsval = Undefined | Val json

fun nonzero :: "double \<Rightarrow> bool" where
  "nonzero (Double m e) = (m \<noteq> 0)"
| "nonzero PlusInfinity = True"
| "nonzero MinusInfinity = True"

fun truthy :: "jsval \<Rightarrow> bool" where
  "truthy Undefined = False"
| "truthy (Val JNull) = False"
| "truthy (Val (JBool b)) = b"
| "truthy (Val (JNum n)) = nonzero n"
| "truthy (Val (JStr s)) = (s \<noteq> [])"
| "truthy (Val (JArr xs)) = True"
| "truthy (Val (JObj kvs)) = True"

text \<open>
  Reading a property, \<open>x.name\<close> or \<open>x[name]\<close>: a \<open>TypeError\<close> on \<open>null\<close> and
  \<open>undefined\<close>, the property or \<open>undefined\<close> on an object, and \<open>undefined\<close> on a
  string, a number, a boolean and an array (none of the names this program reads is an index
  or a property of their prototypes).
\<close>

fun get_prop :: "jsval \<Rightarrow> string \<Rightarrow> error + jsval" where
  "get_prop Undefined name = Inl TypeError"
| "get_prop (Val JNull) name = Inl TypeError"
| "get_prop (Val (JObj kvs)) name =
     Inr (case map_of kvs name of None \<Rightarrow> Undefined | Some v \<Rightarrow> Val v)"
| "get_prop (Val v) name = Inr Undefined"

definition bindE :: "error + 'a \<Rightarrow> ('a \<Rightarrow> error + 'b) \<Rightarrow> error + 'b" where
  "bindE m f = (case m of Inl e \<Rightarrow> Inl e | Inr x \<Rightarrow> f x)"

text \<open>
  White space of the language (\<open>\s\<close>, \<open>trimStart\<close>) among the
  characters below 256: tab, line feed, vertical tab, form feed, carriage return, space and
  the no-break space.
\<close>

definition is_space :: "char \<Rightarrow> bool" where
  "is_space c = (c \<in> {CHR 0x09, CHR 0x0A, CHR 0x0B, CHR 0x0C, CHR 0x0D, CHR 0x20, CHR 0xA0})"

definition trimStart :: "string \<Rightarrow> string" where
  "trimStart s = dropWhile is_space s"

fun includes_str :: "string \<Rightarrow> string \<Rightarrow> bool" where
  "includes_str [] sub = (sub = [])"
| "includes_str (c # cs) sub = (prefix sub (c # cs) \<or> includes_str cs sub)"

fun indexOf :: "string \<Rightarrow> string \<Rightarrow> nat option" where
  "indexOf [] sub = (if sub = [] then Some 0 else None)"
| "indexOf (c # cs) sub =
     (if prefix sub (c # cs) then Some 0 else map_option Suc (indexOf cs sub))"

section \<open>Utilities (utils.ts)\<close>

text \<open>
  \<open>verifyAccessKey\<close>, with the configured access key as a parameter. The header is
  matched against \<open>/^Bearer\s+(\S+)$/i\<close>: the six letters in either case, white space,
  then a token without white space up to the end.
\<close>

definition bearer_match :: "string \<Rightarrow> string option" where
  "bearer_match s =
     (case s of
        c1 # c2 # c3 # c4 # c5 # c6 # rest \<Rightarrow>
          if c1 \<in> {CHR ''B'', CHR ''b''} \<and> c2 \<in> {CHR ''E'', CHR ''e''} \<and>
             c3 \<in> {CHR ''A'', CHR ''a''} \<and> c4 \<in> {CHR ''R'', CHR ''r''} \<and>
             c5 \<in> {CHR ''E'', CHR ''e''} \<and> c6 \<in> {CHR ''R'', CHR ''r''} \<and>
             takeWhile is_space rest \<noteq> [] \<and> dropWhile is_space rest \<noteq> [] \<and>
             list_all (\<lambda>c. \<not> is_space c) (dropWhile is_space rest)
          then Some (dropWhile is_space rest)
          else None
      | _ \<Rightarrow> None)"

definition verifyAccessKey :: "string \<Rightarrow> string option \<Rightarrow> error + bool" where
  "verifyAccessKey accessKey authorization =
     (if accessKey = [] then Inr True
      else (case authorization of
              None \<Rightarrow> Inl MissingAuthorization
            | Some a \<Rightarrow>
                (if a = [] then Inl MissingAuthorization
                 else (case bearer_match a of
                         None \<Rightarrow> Inl InvalidAuthorizationFormat
                       | Some token \<Rightarrow>
                           (if token \<noteq> accessKey then Inl InvalidAccessKey else Inr True)))))"

text \<open>
  \<open>checkRateLimit\<close>. \<open>JSON.parse\<close> and \<open>parseInt\<close> belong to the language and
  are parameters: \<open>None\<close> is the \<open>SyntaxError\<close> that \<open>JSON.parse\<close> throws, and
  \<open>parseInt value\<close> is the number that \<open>parseInt(value, 10)\<close> returns, of whatever
  type stands for such numbers. The body of the \<open>try\<close> block comes first, every property
  read in it able to throw; the \<open>catch\<close> around it turns every error into the answer "no
  rate limit".
\<close>

definition first_reset :: "jsval \<Rightarrow> error + jsval" where
  "first_reset headers =
     bindE (get_prop headers ''x-ratelimit-reset-requests'') (\<lambda>a.
       if truthy a then Inr a
       else bindE (get_prop headers ''x-ratelimit-reset-tokens'') (\<lambda>b.
         if truthy b then Inr b
         else bindE (get_prop headers ''x-ratelimit-reset'') (\<lambda>c.
           if truthy c then Inr c else Inr Undefined)))"

definition is_rate_limit_error :: "jsval \<Rightarrow> error + bool" where
  "is_rate_limit_error err =
     (case err of
        Val (JStr s) \<Rightarrow>
          Inr (includes_str s ''rate limit'' \<or> includes_str s ''rate_limit'' \<or>
               includes_str s ''too many requests'')
      | Val (JNum n) \<Rightarrow> Inr False
      | Val (JBool b) \<Rightarrow> Inr False
      | Undefined \<Rightarrow> Inr False
      | _ \<Rightarrow>
          bindE (get_prop err ''type'') (\<lambda>t.
            if t = Val (JStr ''rate_limit_exceeded'') then Inr True
            else bindE (get_prop err ''code'') (\<lambda>c.
              Inr (c = Val (JStr ''rate_limit_exceeded'')))))"

definition checkRateLimit_try :: "(json \<Rightarrow> 'r) \<Rightarrow> json \<Rightarrow> error + bool \<times> 'r option" where
  "checkRateLimit_try parseInt bodyObj =
     bindE (get_prop (Val bodyObj) ''error'') (\<lambda>err.
       if \<not> truthy err then Inr (False, None)
       else bindE (is_rate_limit_error err) (\<lambda>limited.
         if \<not> limited then Inr (False, None)
         else
           bindE (bindE (get_prop err ''headers'') (\<lambda>h.
                    if truthy h then first_reset h else Inr Undefined)) (\<lambda>r1.
           bindE (if truthy r1 then Inr r1
                  else bindE (get_prop (Val bodyObj) ''headers'') (\<lambda>h.
                         if truthy h then first_reset h else Inr r1)) (\<lambda>r2.
             case r2 of
               Val v \<Rightarrow> if truthy r2 then Inr (True, Some (parseInt v)) else Inr (True, None)
             | Undefined \<Rightarrow> Inr (True, None)))))"

definition checkRateLimit :: "(string \<Rightarrow> json option) \<Rightarrow> (json \<Rightarrow> 'r) \<Rightarrow> string \<Rightarrow> bool \<times> 'r option" where
  "checkRateLimit JSON_parse parseInt body =
     (case JSON_parse body of
        None \<Rightarrow> (False, None)
      | Some bodyObj \<Rightarrow>
          (case checkRateLimit_try parseInt bodyObj of
             Inl e \<Rightarrow> (False, None)
           | Inr r \<Rightarrow> r))"

text \<open>
  \<open>removePaidModels\<close>, with \<open>JSON.parse\<close>, \<open>JSON.stringify\<close> and the configured
  \<open>free_only\<close> as parameters. The loop over the models stops at the first error.
\<close>

definition prices :: "string list" where
  "prices = [''prompt'', ''completion'', ''request'', ''image'', ''web_search'',
     ''internal_reasoning'']"

fun every_price :: "jsval \<Rightarrow> string list \<Rightarrow> error + bool" where
  "every_price pricing [] = Inr True"
| "every_price pricing (k # ks) =
     bindE (get_prop pricing k) (\<lambda>v.
       if v = Val (JStr ''0'') then every_price pricing ks else Inr False)"

definition keep_model :: "json \<Rightarrow> error + bool" where
  "keep_model model =
     bindE (get_prop (Val model) ''pricing'') (\<lambda>pricing.
       if truthy pricing then every_price pricing prices else Inr False)"

fun clear_models :: "json list \<Rightarrow> json list \<Rightarrow> error + json list" where
  "clear_models [] clearData = Inr clearData"
| "clear_models (model # models) clearData =
     bindE (keep_model model) (\<lambda>keep.
       clear_models models (if keep then clearData @ [model] else clearData))"

definition removePaidModels_try :: "json \<Rightarrow> error + json option" where
  "removePaidModels_try data =
     bindE (get_prop (Val data) ''data'') (\<lambda>d.
       case d of
         Val (JArr models) \<Rightarrow>
           bindE (clear_models models []) (\<lambda>clearData.
             if length clearData > 0
             then (case data of
                     JObj kvs \<Rightarrow> Inr (Some (JObj (AList.update ''data'' (JArr clearData) kvs)))
                   | _ \<Rightarrow> Inr None)
             else Inr None)
       | _ \<Rightarrow> Inr None)"

definition removePaidModels :: "(string \<Rightarrow> json option) \<Rightarrow> (json \<Rightarrow> string) \<Rightarrow> bool \<Rightarrow> string \<Rightarrow> string" where
  "removePaidModels JSON_parse JSON_stringify free_only body =
     (if \<not> free_only then body
      else case JSON_parse body of
        None \<Rightarrow> body
      | Some data \<Rightarrow>
          (case removePaidModels_try data of
             Inr (Some data') \<Rightarrow> JSON_stringify data'
           | _ \<Rightarrow> body))"

section \<open>The request handler (routes.ts)\<close>

text \<open>
  The handler of \<open>/api/v1/*\<close> up to the point where it has a key and dispatches the
  request upstream. The configuration is a parameter, and so are the time zone and the
  schedule that \<open>getNextKey\<close> needs. The outcome is the response it sends
  while still in this part, or the key it goes on with; \<open>Suspended\<close> is a request still
  waiting for a key when the schedule ends.
\<close>

record config =
  access_key :: string
  public_endpoints :: "string list"
  free_only :: bool

datatype outcome = Respond nat "error option" | Dispatch string | Suspended

definition isPublic :: "config \<Rightarrow> string \<Rightarrow> bool" where
  "isPublic cfg path = list_ex (\<lambda>ep. prefix ep (''/api/v1/'' @ path)) (public_endpoints cfg)"

definition router_all :: "config \<Rightarrow> zone \<Rightarrow> (nat \<times> other list) list \<Rightarrow> int \<Rightarrow> string \<Rightarrow> string option \<Rightarrow> key_manager \<Rightarrow> outcome \<times> key_manager" where
  "router_all cfg tz sched now path authorization keyManager =
     (case (if \<not> isPublic cfg path then verifyAccessKey (access_key cfg) authorization
            else Inr True) of
        Inl e \<Rightarrow> (Respond 401 (Some e), keyManager)
      | Inr ok \<Rightarrow>
          if isPublic cfg path then (Dispatch [], keyManager)
          else (case getNextKey tz sched now 0 keyManager of
                  (None, km') \<Rightarrow> (Suspended, km')
                | (Some (apiKey, t), km') \<Rightarrow>
                    if apiKey = [] then (Respond 503 None, km') else (Dispatch apiKey, km')))"

text \<open>
  The streaming branch of \<open>proxyWithHTTP\<close>: the handlers of the \<open>data\<close> and \<open>end\<close>
  events of the upstream response. The state is the \<open>buffer\<close> variable and the list of
  the strings passed to \<open>res.write\<close> so far.
\<close>

record relay =
  buffer :: string
  written :: "string list"

function drain :: "string \<Rightarrow> string list \<times> string" where
  "drain buf =
     (case indexOf buf [CHR 0x0A, CHR 0x0A] of
        None \<Rightarrow> ([], buf)
      | Some idx \<Rightarrow>
          (case drain (drop (idx + 2) buf) of
             (messages, rest) \<Rightarrow> (take (idx + 2) buf # messages, rest)))"
  by pat_completeness auto
termination
proof (relation "measure length")
  show "wf (measure length)" by simp
next
  fix buf :: string and idx :: nat
  assume "indexOf buf [CHR 0x0A, CHR 0x0A] = Some idx"
  then have "buf \<noteq> []" by auto
  then show "(drop (idx + 2) buf, buf) \<in> measure length" by simp
qed

definition on_data :: "string \<Rightarrow> relay \<Rightarrow> relay" where
  "on_data chunkStr st =
     (let buf = buffer st @ chunkStr
      in if prefix '':'' (trimStart chunkStr)
         then \<lparr>buffer = buf, written = written st @ [chunkStr]\<rparr>
         else (case drain buf of
                 (messages, rest) \<Rightarrow> \<lparr>buffer = rest, written = written st @ messages\<rparr>))"

definition on_end :: "relay \<Rightarrow> string list" where
  "on_end st = (if length (buffer st) > 0 then written st @ [buffer st] else written st)"

definition relay_stream :: "string list \<Rightarrow> string list" where
  "relay_stream chunks = on_end (fold on_data chunks \<lparr>buffer = [], written = []\<rparr>)"

section \<open>The words of the claims\<close>

text \<open>
  The resume time of a penalty as the specification words it, to be compared with
  \<open>resolveDisabledUntil\<close>: without a hint, now plus the default cooldown; with a hint, a
  value above the current epoch in milliseconds is milliseconds, a value above the current
  epoch in seconds is milliseconds too, a smaller value is seconds; an instant that is not
  strictly in the future gives way to now plus the default cooldown.
\<close>

definition spec_resumeAt :: "int \<Rightarrow> int \<Rightarrow> js_number option \<Rightarrow> date" where
  "spec_resumeAt now defaultCooldownSeconds hint =
     (case hint of
        None \<Rightarrow> new_Date (now + defaultCooldownSeconds * 1000)
      | Some NaN \<Rightarrow> new_Date (now + defaultCooldownSeconds * 1000)
      | Some (Num h) \<Rightarrow>
          (let instant = (if h > now then new_Date h
                          else if h > now div 1000 then new_Date h
                          else new_Date (h * 1000))
           in if date_gt instant (Valid now) then instant
              else new_Date (now + defaultCooldownSeconds * 1000)))"

text \<open>
  Reading a property where nothing can throw; the three header names; "the body has an
  error field"; "the error field is an object whose type or code is the sentinel, or a
  string containing one of the substrings".
\<close>

definition prop_or_undefined :: "jsval \<Rightarrow> string \<Rightarrow> jsval" where
  "prop_or_undefined x name = (case get_prop x name of Inl e \<Rightarrow> Undefined | Inr v \<Rightarrow> v)"

definition reset_names :: "string list" where
  "reset_names = [''x-ratelimit-reset-requests'', ''x-ratelimit-reset-tokens'',
     ''x-ratelimit-reset'']"

fun has_field :: "json \<Rightarrow> string \<Rightarrow> bool" where
  "has_field (JObj kvs) name = (map_of kvs name \<noteq> None)"
| "has_field v name = False"

fun rate_limit_shaped :: "jsval \<Rightarrow> bool" where
  "rate_limit_shaped (Val (JObj kvs)) =
     (map_of kvs ''type'' = Some (JStr ''rate_limit_exceeded'') \<or>
      map_of kvs ''code'' = Some (JStr ''rate_limit_exceeded''))"
| "rate_limit_shaped (Val (JStr s)) =
     (includes_str s ''rate limit'' \<or> includes_str s ''rate_limit'' \<or>
      includes_str s ''too many requests'')"
| "rate_limit_shaped v = False"

text \<open>
  The first of the three headers whose value is truthy (not \<open>undefined\<close>, \<open>null\<close>,
  \<open>false\<close>, 0 or the empty string), and the first that is present at all; the resume
  time read from the first truthy one with \<open>parseInt\<close>, and the one the claim words: the
  first present value, as it is.
\<close>

definition first_truthy_header :: "jsval \<Rightarrow> jsval" where
  "first_truthy_header headers =
     (case filter truthy (map (prop_or_undefined headers) reset_names) of
        [] \<Rightarrow> Undefined
      | x # xs \<Rightarrow> x)"

definition first_present_header :: "jsval \<Rightarrow> jsval" where
  "first_present_header headers =
     (case filter (\<lambda>x. x \<noteq> Undefined) (map (prop_or_undefined headers) reset_names) of
        [] \<Rightarrow> Undefined
      | x # xs \<Rightarrow> x)"

definition resumeAt_truthy :: "(json \<Rightarrow> 'r) \<Rightarrow> json \<Rightarrow> 'r option" where
  "resumeAt_truthy parseInt bodyObj =
     (let own = first_truthy_header
                  (prop_or_undefined (prop_or_undefined (Val bodyObj) ''error'') ''headers'');
          r = (if truthy own then own
               else first_truthy_header (prop_or_undefined (Val bodyObj) ''headers''))
      in case r of Undefined \<Rightarrow> None | Val x \<Rightarrow> Some (parseInt x))"

definition resumeAt_present :: "json \<Rightarrow> json option" where
  "resumeAt_present bodyObj =
     (let own = first_present_header
                  (prop_or_undefined (prop_or_undefined (Val bodyObj) ''error'') ''headers'');
          r = (if own \<noteq> Undefined then own
               else first_present_header (prop_or_undefined (Val bodyObj) ''headers''))
      in case r of Undefined \<Rightarrow> None | Val x \<Rightarrow> Some x)"

text \<open>
  A model descriptor whose pricing fields prompt, completion, request, image, web_search and
  internal_reasoning are all zero: an object whose \<open>pricing\<close> is an object holding the
  text \<open>0\<close> under each of these six names.
\<close>

fun pricing_all_zero :: "json \<Rightarrow> bool" where
  "pricing_all_zero (JObj kvs) =
     (case map_of kvs ''pricing'' of
        Some (JObj p) \<Rightarrow>
          map_of p ''prompt'' = Some (JStr ''0'') \<and>
          map_of p ''completion'' = Some (JStr ''0'') \<and>
          map_of p ''request'' = Some (JStr ''0'') \<and>
          map_of p ''image'' = Some (JStr ''0'') \<and>
          map_of p ''web_search'' = Some (JStr ''0'') \<and>
          map_of p ''internal_reasoning'' = Some (JStr ''0'')
      | _ \<Rightarrow> False)"
| "pricing_all_zero v = False"

text \<open>A chunk that the \<open>data\<close> handler takes for a comment.\<close>

definition is_comment_chunk :: "string \<Rightarrow> bool" where
  "is_comment_chunk chunkStr = prefix '':'' (trimStart chunkStr)"

section \<open>Example bodies\<close>

text \<open>A stand-in for \<open>JSON.parse\<close> that knows the example bodies and rejects every
  other text.\<close>

definition body_reset_zero :: string where
  \<open>body_reset_zero = ''{"error":{"type":"rate_limit_exceeded","headers":{"x-ratelimit-reset-requests":0,"x-ratelimit-reset-tokens":"99"}}}''\<close>

definition json_reset_zero :: json where
  "json_reset_zero =
     JObj [(''error'', JObj [(''type'', JStr ''rate_limit_exceeded''),
        (''headers'', JObj [(''x-ratelimit-reset-requests'', JNum (Double 0 0)),
                            (''x-ratelimit-reset-tokens'', JStr ''99'')])])]"

definition body_top_header :: string where
  \<open>body_top_header = ''{"error":"rate limit reached","headers":{"x-ratelimit-reset":"1700000030000"}}''\<close>

definition json_top_header :: json where
  "json_top_header =
     JObj [(''error'', JStr ''rate limit reached''),
           (''headers'', JObj [(''x-ratelimit-reset'', JStr ''1700000030000'')])]"

text \<open>A stand-in for \<open>parseInt\<close> that knows the header values of the examples:
  \<open>parseInt("99", 10)\<close> is 99, \<open>parseInt("1700000030000", 10)\<close> is 1700000030000 and
  \<open>parseInt(0, 10)\<close> is 0.\<close>

definition example_parseInt :: "json \<Rightarrow> js_number" where
  "example_parseInt v =
     (if v = JStr ''99'' then Num 99
      else if v = JStr ''1700000030000'' then Num 1700000030000
      else if v = JNum (Double 0 0) then Num 0
      else NaN)"

definition example_JSON_parse :: "string \<Rightarrow> json option" where
  "example_JSON_parse body =
     (if body = body_reset_zero then Some json_reset_zero
      else if body = body_top_header then Some json_top_header
      else None)"

text \<open>
  The model catalog of the specification's example, a free model followed by a paid one, a
  catalog of one model that is paid for reasoning only and one with a \<open>null\<close> element, with
  stand-ins for \<open>JSON.parse\<close> and \<open>JSON.stringify\<close> that know these texts; the two
  frames of the streaming example; a configuration with an access key.
\<close>

definition free_model :: json where
  "free_model = JObj [(''pricing'', JObj [(''prompt'', JStr ''0''), (''completion'', JStr ''0''),
     (''request'', JStr ''0''), (''image'', JStr ''0''), (''web_search'', JStr ''0''),
     (''internal_reasoning'', JStr ''0'')])]"

definition paid_model :: json where
  "paid_model = JObj [(''pricing'', JObj [(''prompt'', JStr ''1''), (''completion'', JStr ''0''),
     (''request'', JStr ''0''), (''image'', JStr ''0''), (''web_search'', JStr ''0''),
     (''internal_reasoning'', JStr ''0'')])]"

definition body_catalog :: string where
  \<open>body_catalog = ''{"data":[{"pricing":{"prompt":"0","completion":"0","request":"0","image":"0","web_search":"0","internal_reasoning":"0"}},{"pricing":{"prompt":"1","completion":"0","request":"0","image":"0","web_search":"0","internal_reasoning":"0"}}]}''\<close>

definition body_catalog_free :: string where
  \<open>body_catalog_free = ''{"data":[{"pricing":{"prompt":"0","completion":"0","request":"0","image":"0","web_search":"0","internal_reasoning":"0"}}]}''\<close>

definition paid_reasoning_model :: json where
  "paid_reasoning_model = JObj [(''pricing'', JObj [(''prompt'', JStr ''0''),
     (''completion'', JStr ''0''), (''request'', JStr ''0''), (''image'', JStr ''0''),
     (''web_search'', JStr ''0''), (''internal_reasoning'', JStr ''0.000002'')])]"

definition body_catalog_paid :: string where
  \<open>body_catalog_paid = ''{"data":[{"pricing":{"prompt":"0","completion":"0","request":"0","image":"0","web_search":"0","internal_reasoning":"0.000002"}}]}''\<close>

definition body_catalog_null :: string where
  \<open>body_catalog_null = ''{"data":[null,{"pricing":{"prompt":"0","completion":"0","request":"0","image":"0","web_search":"0","internal_reasoning":"0"}}]}''\<close>

definition catalog_JSON_parse :: "string \<Rightarrow> json option" where
  "catalog_JSON_parse body =
     (if body = body_catalog then Some (JObj [(''data'', JArr [free_model, paid_model])])
      else if body = body_catalog_paid then Some (JObj [(''data'', JArr [paid_reasoning_model])])
      else if body = body_catalog_null then Some (JObj [(''data'', JArr [JNull, free_model])])
      else None)"

definition catalog_JSON_stringify :: "json \<Rightarrow> string" where
  "catalog_JSON_stringify v =
     (if v = JObj [(''data'', JArr [free_model])] then body_catalog_free else [])"

definition sse_comment :: string where
  "sse_comment = '':hi'' @ [CHR 0x0A, CHR 0x0A]"

definition sse_data :: string where
  "sse_data = ''a:1'' @ [CHR 0x0A, CHR 0x0A]"

definition example_config :: config where
  "example_config = \<lparr>access_key = ''secret'', public_endpoints = [''/api/v1/models''],
     free_only = True\<rparr>"

section \<open>Example pools\<close>

text \<open>A time zone without offset.\<close>

definition utc_zone :: zone where
  "utc_zone t isUTC = 0"

definition pool_a :: key_manager where
  "pool_a = \<lparr>keys = [''a''], cooldownSeconds = 60, currentIndex = 0,
     disabledUntil = [], lockPromise = False\<rparr>"

definition pool_ab :: key_manager where
  "pool_ab = \<lparr>keys = [''a'', ''b''], cooldownSeconds = 60, currentIndex = 0,
     disabledUntil = [], lockPromise = False\<rparr>"

definition pool_a_cooling :: key_manager where
  "pool_a_cooling = \<lparr>keys = [''a''], cooldownSeconds = 60, currentIndex = 0,
     disabledUntil = [(''a'', Valid 1700000060000)], lockPromise = False\<rparr>"

text \<open>
  A pool whose only key has the entry \<open>d\<close>, and a schedule in which the timer is on time
  and, one millisecond before each waking of the caller expected at \<open>T\<close>, another request
  penalizes that key for the default sixty seconds.
\<close>

definition cooling :: "date \<Rightarrow> key_manager" where
  "cooling d = \<lparr>keys = [''a''], cooldownSeconds = 60, currentIndex = 0,
     disabledUntil = [(''a'', d)], lockPromise = False\<rparr>"

fun renewals :: "nat \<Rightarrow> int \<Rightarrow> (nat \<times> other list) list" where
  "renewals 0 T = []"
| "renewals (Suc n) T = (0, [OtherDisable (T - 1) ''a'' None]) # renewals n (T + 59999)"

section \<open>Properties of the key manager\<close>

lemma setCooldown_fields [simp]:
  "keys (setCooldown tz now cd key km) = keys km"
  "currentIndex (setCooldown tz now cd key km) = currentIndex km"
  "cooldownSeconds (setCooldown tz now cd key km) = cooldownSeconds km"
  "lockPromise (setCooldown tz now cd key km) = lockPromise km"
  by (simp_all add: setCooldown_def)

lemma setCooldown_other:
  "k \<noteq> key \<Longrightarrow> map_of (disabledUntil (setCooldown tz now cd key km)) k = map_of (disabledUntil km) k"
  by (simp add: setCooldown_def update_conv')

lemma scan_frame:
  "keys (snd (scan tz now cd n km)) = keys km \<and>
   cooldownSeconds (snd (scan tz now cd n km)) = cooldownSeconds km \<and>
   lockPromise (snd (scan tz now cd n km)) = lockPromise km"
  by (induction n arbitrary: km) (auto simp: Let_def split: option.splits)

lemma scan_index_bound:
  "currentIndex km < length (keys km) \<Longrightarrow>
   currentIndex (snd (scan tz now cd n km)) < length (keys km)"
proof (induction n arbitrary: km)
  case 0
  then show ?case by simp
next
  case (Suc n)
  let ?km1 = "km\<lparr>currentIndex := (currentIndex km + 1) mod length (keys km)\<rparr>"
  have pos: "0 < length (keys km)" using Suc.prems by (cases "keys km") simp_all
  then have "currentIndex ?km1 < length (keys ?km1)" by simp
  from Suc.IH [OF this] pos show ?case
    by (auto simp: Let_def split: option.splits)
qed

lemma scan_skips_pending:
  "map_of (disabledUntil km) c = Some d \<Longrightarrow> \<not> date_ge (Valid now) d \<Longrightarrow>
   fst (scan tz now cd n km) \<noteq> Some c \<and> map_of (disabledUntil (snd (scan tz now cd n km))) c = Some d"
proof (induction n arbitrary: km)
  case 0
  then show ?case by simp
next
  case (Suc n)
  let ?key = "keys km ! currentIndex km"
  let ?km1 = "km\<lparr>currentIndex := (currentIndex km + 1) mod length (keys km)\<rparr>"
  show ?case
  proof (cases "?key = c")
    case True
    with Suc.prems Suc.IH [of ?km1] show ?thesis by (simp add: Let_def)
  next
    case False
    with Suc.prems Suc.IH [of ?km1] show ?thesis
      by (auto simp: Let_def setCooldown_other split: option.splits)
  qed
qed

lemma eligible_index [simp]:
  "eligible now (km\<lparr>currentIndex := i\<rparr>) k = eligible now km k"
  by (simp add: eligible_def)

lemma eligible_lock [simp]:
  "eligible now (km\<lparr>lockPromise := b\<rparr>) k = eligible now km k"
  by (simp add: eligible_def)

lemma mod_step: "(Suc c mod m + i) mod m = Suc (c + i) mod (m::nat)"
  by (simp add: mod_add_left_eq)

lemma mod_step2: "Suc (Suc c mod m + i) mod m = Suc (Suc (c + i)) mod (m::nat)"
  using mod_step [of c m "Suc i"] by simp

lemma scan_cursor:
  "currentIndex km < length (keys km) \<Longrightarrow>
   (case scan tz now cd n km of
      (None, km') \<Rightarrow>
        km' = km\<lparr>currentIndex := (currentIndex km + n) mod length (keys km)\<rparr> \<and>
        (\<forall>i<n. \<not> eligible now km (keys km ! ((currentIndex km + i) mod length (keys km))))
    | (Some k, km') \<Rightarrow>
        (\<exists>j<n. k = keys km ! ((currentIndex km + j) mod length (keys km)) \<and>
           eligible now km k \<and>
           (\<forall>i<j. \<not> eligible now km (keys km ! ((currentIndex km + i) mod length (keys km)))) \<and>
           currentIndex km' = (currentIndex km + j + 1) mod length (keys km)))"
proof (induction n arbitrary: km)
  case 0
  then show ?case by simp
next
  case (Suc n)
  let ?N = "length (keys km)"
  let ?key = "keys km ! currentIndex km"
  let ?km1 = "km\<lparr>currentIndex := (currentIndex km + 1) mod ?N\<rparr>"
  have pos: "0 < ?N" using Suc.prems by (cases "keys km") simp_all
  have cur: "currentIndex km mod ?N = currentIndex km" using Suc.prems by simp
  show ?case
  proof (cases "eligible now km ?key")
    case True
    then obtain km' where sc: "scan tz now cd (Suc n) km = (Some ?key, km')"
      and ci: "currentIndex km' = (currentIndex km + 1) mod ?N"
      by (auto simp: Let_def eligible_def split: option.splits)
    have "\<exists>j<Suc n. ?key = keys km ! ((currentIndex km + j) mod ?N) \<and>
           eligible now km ?key \<and>
           (\<forall>i<j. \<not> eligible now km (keys km ! ((currentIndex km + i) mod ?N))) \<and>
           currentIndex km' = (currentIndex km + j + 1) mod ?N"
      using True ci cur by (intro exI [of _ 0]) simp
    with sc show ?thesis by simp
  next
    case False
    then obtain d where "map_of (disabledUntil km) ?key = Some d" "\<not> date_ge (Valid now) d"
      by (auto simp: eligible_def split: option.splits)
    then have sc: "scan tz now cd (Suc n) km = scan tz now cd n ?km1"
      by (simp add: Let_def)
    have wf1: "currentIndex ?km1 < length (keys ?km1)" using pos by simp
    note ih = Suc.IH [OF wf1]
    obtain r km' where res: "scan tz now cd n ?km1 = (r, km')" by (cases "scan tz now cd n ?km1")
    show ?thesis
    proof (cases r)
      case None
      with ih res have st: "km' = ?km1\<lparr>currentIndex := ((currentIndex km + 1) mod ?N + n) mod ?N\<rparr>"
        and ne: "\<forall>i<n. \<not> eligible now km (keys km ! (((currentIndex km + 1) mod ?N + i) mod ?N))"
        by simp_all
      have st': "km' = km\<lparr>currentIndex := (currentIndex km + Suc n) mod ?N\<rparr>"
        using st pos by (simp add: mod_step)
      have "\<forall>i<Suc n. \<not> eligible now km (keys km ! ((currentIndex km + i) mod ?N))"
      proof (intro allI impI)
        fix i assume "i < Suc n"
        show "\<not> eligible now km (keys km ! ((currentIndex km + i) mod ?N))"
        proof (cases i)
          case 0
          with False cur show ?thesis by simp
        next
          case (Suc i')
          with \<open>i < Suc n\<close> ne pos show ?thesis by (simp add: mod_step)
        qed
      qed
      with st' sc res None show ?thesis by simp
    next
      case (Some k)
      with ih res obtain j where j: "j < n"
        and k: "k = keys km ! (((currentIndex km + 1) mod ?N + j) mod ?N)"
        and el: "eligible now km k"
        and ne: "\<forall>i<j. \<not> eligible now km (keys km ! (((currentIndex km + 1) mod ?N + i) mod ?N))"
        and ci: "currentIndex km' = ((currentIndex km + 1) mod ?N + j + 1) mod ?N"
        by auto
      have k': "k = keys km ! ((currentIndex km + Suc j) mod ?N)"
        using k pos by (simp add: mod_step)
      have ci': "currentIndex km' = (currentIndex km + Suc j + 1) mod ?N"
        using ci by (simp add: mod_step2)
      have ne': "\<forall>i<Suc j. \<not> eligible now km (keys km ! ((currentIndex km + i) mod ?N))"
      proof (intro allI impI)
        fix i assume "i < Suc j"
        show "\<not> eligible now km (keys km ! ((currentIndex km + i) mod ?N))"
        proof (cases i)
          case 0
          with False cur show ?thesis by simp
        next
          case (Suc i')
          with \<open>i < Suc j\<close> ne pos show ?thesis by (simp add: mod_step)
        qed
      qed
      have "\<exists>j<Suc n. k = keys km ! ((currentIndex km + j) mod ?N) \<and>
           eligible now km k \<and>
           (\<forall>i<j. \<not> eligible now km (keys km ! ((currentIndex km + i) mod ?N))) \<and>
           currentIndex km' = (currentIndex km + j + 1) mod ?N"
        using j k' el ne' ci' by (intro exI [of _ "Suc j"]) simp
      with sc res Some show ?thesis by simp
    qed
  qed
qed

lemma attempt_scan:
  obtains (got) k km1 where
      "scan tz now cd (length (keys km)) (km\<lparr>lockPromise := True\<rparr>) = (Some k, km1)"
      "attempt tz now cd km = Got k (km1\<lparr>lockPromise := False\<rparr>)"
  | (sleep) km1 where
      "scan tz now cd (length (keys km)) (km\<lparr>lockPromise := True\<rparr>) = (None, km1)"
      "attempt tz now cd km = Sleep (waitMs now km1) (km1\<lparr>lockPromise := False\<rparr>)"
proof (cases "scan tz now cd (length (keys km)) (km\<lparr>lockPromise := True\<rparr>)")
  case (Pair r km1)
  then show ?thesis
    by (cases r) (auto simp: attempt_def intro: got sleep)
qed

lemma attempt_frame:
  "keys (pool_of (attempt tz now cd km)) = keys km \<and>
   cooldownSeconds (pool_of (attempt tz now cd km)) = cooldownSeconds km \<and>
   lockPromise (pool_of (attempt tz now cd km)) = False"
proof (cases rule: attempt_scan [of tz now cd km])
  case (got k km1)
  with scan_frame [of tz now cd "length (keys km)" "km\<lparr>lockPromise := True\<rparr>"] show ?thesis by simp
next
  case (sleep km1)
  with scan_frame [of tz now cd "length (keys km)" "km\<lparr>lockPromise := True\<rparr>"] show ?thesis by simp
qed

lemma attempt_index_bound:
  assumes "currentIndex km < length (keys km)"
  shows "currentIndex (pool_of (attempt tz now cd km)) < length (keys km)"
proof (cases rule: attempt_scan [of tz now cd km])
  case (got k km1)
  with scan_index_bound [of "km\<lparr>lockPromise := True\<rparr>" tz now cd "length (keys km)"] assms
  show ?thesis by simp
next
  case (sleep km1)
  with scan_index_bound [of "km\<lparr>lockPromise := True\<rparr>" tz now cd "length (keys km)"] assms
  show ?thesis by simp
qed

lemma attempt_skips_pending:
  assumes "map_of (disabledUntil km) c = Some d" "\<not> date_ge (Valid now) d"
  shows "(\<forall>km'. attempt tz now cd km \<noteq> Got c km') \<and>
         map_of (disabledUntil (pool_of (attempt tz now cd km))) c = Some d"
proof (cases rule: attempt_scan [of tz now cd km])
  case (got k km1)
  with scan_skips_pending [of "km\<lparr>lockPromise := True\<rparr>" c d now tz cd "length (keys km)"] assms
  show ?thesis by simp
next
  case (sleep km1)
  with scan_skips_pending [of "km\<lparr>lockPromise := True\<rparr>" c d now tz cd "length (keys km)"] assms
  show ?thesis by simp
qed

lemma acquire_all_frame:
  "currentIndex km < length (keys km) \<Longrightarrow>
   keys (snd (acquire_all tz calls km)) = keys km \<and>
   currentIndex (snd (acquire_all tz calls km)) < length (keys km)"
proof (induction calls arbitrary: km)
  case Nil
  then show ?case by simp
next
  case (Cons call calls)
  obtain now cd where call: "call = (now, cd)" by (cases call)
  let ?km1 = "pool_of (attempt tz now cd km)"
  have "currentIndex ?km1 < length (keys ?km1)"
    using attempt_index_bound [OF Cons.prems] attempt_frame [of tz now cd km] by simp
  from Cons.IH [OF this] attempt_frame [of tz now cd km] call show ?case
    by (simp add: Let_def)
qed

lemma acquire_all_skips_pending:
  "map_of (disabledUntil km) c = Some (Valid T) \<Longrightarrow> list_all (\<lambda>(t, cd). t < T) calls \<Longrightarrow>
   Some c \<notin> set (fst (acquire_all tz calls km)) \<and>
   map_of (disabledUntil (snd (acquire_all tz calls km))) c = Some (Valid T)"
proof (induction calls arbitrary: km)
  case Nil
  then show ?case by simp
next
  case (Cons call calls)
  obtain now cd where call: "call = (now, cd)" by (cases call)
  with Cons.prems have lt: "now < T" and rest: "list_all (\<lambda>(t, cd). t < T) calls" by simp_all
  let ?a = "attempt tz now cd km"
  from lt have "\<not> date_ge (Valid now) (Valid T)" by simp
  from attempt_skips_pending [OF Cons.prems(1) this, of tz cd]
  have no: "\<forall>km'. ?a \<noteq> Got c km'"
    and keep: "map_of (disabledUntil (pool_of ?a)) c = Some (Valid T)" by simp_all
  from no have "(case ?a of Got key km' \<Rightarrow> Some key | Sleep w km' \<Rightarrow> None) \<noteq> Some c"
    by (cases ?a) auto
  with Cons.IH [OF keep rest] call show ?case
    by (simp add: Let_def)
qed

lemma attempt_first_eligible:
  assumes wf: "currentIndex km < length (keys km)"
    and j: "j < length (keys km)"
    and c: "keys km ! ((currentIndex km + j) mod length (keys km)) = c"
    and el: "eligible now km c"
    and ne: "\<forall>i<j. \<not> eligible now km (keys km ! ((currentIndex km + i) mod length (keys km)))"
  shows "\<exists>km'. attempt tz now cd km = Got c km'"
proof -
  let ?km = "km\<lparr>lockPromise := True\<rparr>"
  have wf': "currentIndex ?km < length (keys ?km)" using wf by simp
  note sc = scan_cursor [OF wf', where tz = tz and now = now and cd = cd and n = "length (keys km)"]
  show ?thesis
  proof (cases rule: attempt_scan [of tz now cd km])
    case (got k km1)
    with sc obtain j' where j': "j' < length (keys km)"
      and k: "k = keys km ! ((currentIndex km + j') mod length (keys km))"
      and el': "eligible now km k"
      and ne': "\<forall>i<j'. \<not> eligible now km (keys km ! ((currentIndex km + i) mod length (keys km)))"
      by auto
    have "j' = j"
    proof (rule ccontr)
      assume "j' \<noteq> j"
      then consider "j' < j" | "j < j'" by linarith
      then show False
      proof cases
        case 1
        with ne k el' show False by simp
      next
        case 2
        with ne' c el show False by auto
      qed
    qed
    with k c got show ?thesis by simp
  next
    case (sleep km1)
    with sc j have "\<not> eligible now km (keys km ! ((currentIndex km + j) mod length (keys km)))"
      by simp
    with c el show ?thesis by simp
  qed
qed

lemma disableKey_frame:
  "keys (snd (disableKey now key hint km)) = keys km \<and>
   currentIndex (snd (disableKey now key hint km)) = currentIndex km \<and>
   cooldownSeconds (snd (disableKey now key hint km)) = cooldownSeconds km"
  by (simp add: disableKey_def Let_def)

lemma disableKey_entry:
  "map_of (disabledUntil (snd (disableKey now key hint km))) key =
     Some (resolveDisabledUntil now (cooldownSeconds km) hint)"
  by (simp add: disableKey_def Let_def update_conv')

lemma constructor_fresh:
  "constructor ks cd = Some km \<Longrightarrow>
   keys km = ks \<and> currentIndex km < length (keys km) \<and> disabledUntil km = [] \<and>
   \<not> lockPromise km"
  by (auto simp: constructor_def split: if_splits)

lemma scan_entries_subset:
  "cd \<le> 0 \<Longrightarrow> set (disabledUntil (snd (scan tz now cd n km))) \<subseteq> set (disabledUntil km)"
proof (induction n arbitrary: km)
  case 0
  then show ?case by simp
next
  case (Suc n)
  let ?km1 = "km\<lparr>currentIndex := (currentIndex km + 1) mod length (keys km)\<rparr>"
  from Suc.IH [OF Suc.prems, of ?km1] Suc.prems show ?case
    by (auto simp: Let_def setCooldown_def AList.delete_eq split: option.splits)
qed

lemma map_rotate_index:
  "map (\<lambda>i. xs ! ((c + i) mod length xs)) [0..<length xs] = rotate c xs"
  by (rule nth_equalityI) (simp_all add: nth_rotate)

lemma attempt_no_pending:
  assumes wf: "currentIndex km < length (keys km)"
    and np: "list_all (\<lambda>(k, d). date_ge (Valid t0) d) (disabledUntil km)"
    and t: "t0 \<le> t"
  shows "\<exists>km'. attempt tz t 0 km = Got (keys km ! currentIndex km) km' \<and>
           keys km' = keys km \<and>
           currentIndex km' = Suc (currentIndex km) mod length (keys km) \<and>
           list_all (\<lambda>(k, d). date_ge (Valid t0) d) (disabledUntil km')"
proof -
  let ?km = "km\<lparr>lockPromise := True\<rparr>"
  let ?N = "length (keys km)"
  have el: "eligible t km k" for k
  proof (cases "map_of (disabledUntil km) k")
    case None
    then show ?thesis by (simp add: eligible_def)
  next
    case (Some d)
    then have "(k, d) \<in> set (disabledUntil km)" by (rule map_of_SomeD)
    with np have "date_ge (Valid t0) d" by (auto simp: list_all_iff)
    with t have "date_ge (Valid t) d" by (cases d) simp_all
    with Some show ?thesis by (simp add: eligible_def)
  qed
  have wf': "currentIndex ?km < length (keys ?km)" using wf by simp
  note sc = scan_cursor [OF wf', where tz = tz and now = t and cd = 0 and n = ?N]
  have sub: "set (disabledUntil (snd (scan tz t 0 ?N ?km))) \<subseteq> set (disabledUntil km)"
    using scan_entries_subset [of 0 tz t ?N ?km] by simp
  show ?thesis
  proof (cases rule: attempt_scan [of tz t 0 km])
    case (got k km1)
    with sc obtain j where j: "j < ?N"
      and k: "k = keys km ! ((currentIndex km + j) mod ?N)"
      and ne: "\<forall>i<j. \<not> eligible t km (keys km ! ((currentIndex km + i) mod ?N))"
      and ci: "currentIndex km1 = (currentIndex km + j + 1) mod ?N"
      by auto
    have j0: "j = 0" using ne el by (cases j) auto
    have "keys km1 = keys km"
      using scan_frame [of tz t 0 ?N ?km] got by simp
    moreover have "list_all (\<lambda>(k, d). date_ge (Valid t0) d) (disabledUntil km1)"
      using sub got np by (auto simp: list_all_iff)
    ultimately show ?thesis using got k ci j0 wf by simp
  next
    case (sleep km1)
    with sc have "\<forall>i<?N. \<not> eligible t km (keys km ! ((currentIndex km + i) mod ?N))"
      by simp
    moreover have "0 < ?N" using wf by (cases "keys km") simp_all
    ultimately have "\<not> eligible t km (keys km ! ((currentIndex km + 0) mod ?N))" by blast
    with el show ?thesis by simp
  qed
qed

lemma round_robin_run:
  "currentIndex km < length (keys km) \<Longrightarrow>
   list_all (\<lambda>(k, d). date_ge (Valid t0) d) (disabledUntil km) \<Longrightarrow>
   list_all (\<lambda>t. t0 \<le> t) ts \<Longrightarrow>
   fst (acquire_all tz (map (\<lambda>t. (t, 0)) ts) km) =
     map (\<lambda>i. Some (keys km ! ((currentIndex km + i) mod length (keys km)))) [0..<length ts] \<and>
   currentIndex (snd (acquire_all tz (map (\<lambda>t. (t, 0)) ts) km)) =
     (currentIndex km + length ts) mod length (keys km)"
proof (induction ts arbitrary: km)
  case Nil
  then show ?case by simp
next
  case (Cons t ts)
  let ?N = "length (keys km)"
  from Cons.prems have t: "t0 \<le> t" and ts: "list_all (\<lambda>t. t0 \<le> t) ts" by simp_all
  from attempt_no_pending [OF Cons.prems(1,2) t]
  obtain km' where a: "attempt tz t 0 km = Got (keys km ! currentIndex km) km'"
    and k: "keys km' = keys km"
    and ci: "currentIndex km' = Suc (currentIndex km) mod ?N"
    and np: "list_all (\<lambda>(k, d). date_ge (Valid t0) d) (disabledUntil km')"
    by blast
  have pos: "0 < ?N" using Cons.prems(1) by (cases "keys km") simp_all
  have wf': "currentIndex km' < length (keys km')" using k ci pos by simp
  note ih = Cons.IH [OF wf' np ts]
  have cur: "currentIndex km mod ?N = currentIndex km" using Cons.prems(1) by simp
  define f where "f = (\<lambda>i. Some (keys km ! ((currentIndex km + i) mod ?N)))"
  define g where "g = (\<lambda>i. Some (keys km' ! ((currentIndex km' + i) mod length (keys km'))))"
  have fg: "f (Suc i) = g i" for i
    unfolding f_def g_def k ci by (simp add: mod_step)
  have f0: "f 0 = Some (keys km ! currentIndex km)"
    unfolding f_def using cur by simp
  have fst_eq: "fst (acquire_all tz (map (\<lambda>t. (t, 0)) (t # ts)) km) =
      Some (keys km ! currentIndex km) # fst (acquire_all tz (map (\<lambda>t. (t, 0)) ts) km')"
    using a by (simp add: Let_def)
  have snd_eq: "snd (acquire_all tz (map (\<lambda>t. (t, 0)) (t # ts)) km) =
      snd (acquire_all tz (map (\<lambda>t. (t, 0)) ts) km')"
    using a by (simp add: Let_def)
  have ih1: "fst (acquire_all tz (map (\<lambda>t. (t, 0)) ts) km') = map g [0..<length ts]"
    unfolding g_def by (rule ih [THEN conjunct1])
  have ih2: "currentIndex (snd (acquire_all tz (map (\<lambda>t. (t, 0)) ts) km')) =
      (currentIndex km' + length ts) mod length (keys km')"
    by (rule ih [THEN conjunct2])
  have "map f [0..<Suc (length ts)] = f 0 # map (\<lambda>i. f (Suc i)) [0..<length ts]"
    by (rule map_upt_Suc)
  also have "\<dots> = Some (keys km ! currentIndex km) # map g [0..<length ts]"
    by (simp only: fg f0)
  finally have m: "map f [0..<length (t # ts)] =
      fst (acquire_all tz (map (\<lambda>t. (t, 0)) (t # ts)) km)"
    using fst_eq ih1 by (simp del: upt_Suc acquire_all.simps)
  have "(currentIndex km' + length ts) mod length (keys km') =
      (currentIndex km + length (t # ts)) mod ?N"
    unfolding k ci by (simp add: mod_step)
  with ih2 snd_eq have c: "currentIndex (snd (acquire_all tz (map (\<lambda>t. (t, 0)) (t # ts)) km)) =
      (currentIndex km + length (t # ts)) mod ?N" by (simp del: acquire_all.simps)
  from m c show ?case unfolding f_def by (simp del: acquire_all.simps upt_Suc)
qed

text \<open>
  Claim C1, as the code has it. A key is penalized at \<open>now0\<close> and the hint resolves to the
  instant \<open>T\<close>. Then no scan of \<open>getNextKey\<close> run before \<open>T\<close>, with whatever
  cooldown argument, returns that key. From \<open>T\<close> on the key is eligible again, and a call
  returns it when its scan reaches it: when every key between the cursor and this one is
  ineligible at that instant (none at all when the key is at the cursor, or alone in the
  pool). A call at or after \<open>T\<close> whose cursor finds another eligible key first returns that
  other key.
\<close>

theorem penalized_key_returns_only_after_resume:
  assumes wf: "currentIndex km < length (keys km)"
    and res: "resolveDisabledUntil now0 (cooldownSeconds km) hint = Valid T"
    and calls: "list_all (\<lambda>(t, cd). t < T) calls"
  shows "(let km2 = snd (acquire_all tz calls (snd (disableKey now0 c hint km))) in
          Some c \<notin> set (fst (acquire_all tz calls (snd (disableKey now0 c hint km)))) \<and>
          (\<forall>t cd j. T \<le> t \<longrightarrow> j < length (keys km) \<longrightarrow>
             keys km ! ((currentIndex km2 + j) mod length (keys km)) = c \<longrightarrow>
             (\<forall>i<j. \<not> eligible t km2 (keys km ! ((currentIndex km2 + i) mod length (keys km)))) \<longrightarrow>
             (\<exists>km3. attempt tz t cd km2 = Got c km3)))"
proof -
  let ?km1 = "snd (disableKey now0 c hint km)"
  let ?km2 = "snd (acquire_all tz calls ?km1)"
  have e1: "map_of (disabledUntil ?km1) c = Some (Valid T)"
    using disableKey_entry [of now0 c hint km] res by simp
  have wf1: "currentIndex ?km1 < length (keys ?km1)"
    using wf disableKey_frame [of now0 c hint km] by simp
  from acquire_all_skips_pending [OF e1 calls]
  have no: "Some c \<notin> set (fst (acquire_all tz calls ?km1))"
    and e2: "map_of (disabledUntil ?km2) c = Some (Valid T)" by simp_all
  from acquire_all_frame [OF wf1, of tz calls] disableKey_frame [of now0 c hint km]
  have k2: "keys ?km2 = keys km" and wf2: "currentIndex ?km2 < length (keys ?km2)" by simp_all
  have "\<exists>km3. attempt tz t cd ?km2 = Got c km3"
    if "T \<le> t" "j < length (keys km)"
      "keys km ! ((currentIndex ?km2 + j) mod length (keys km)) = c"
      "\<forall>i<j. \<not> eligible t ?km2 (keys km ! ((currentIndex ?km2 + i) mod length (keys km)))"
    for t cd j
  proof -
    have "eligible t ?km2 c" using e2 that(1) by (simp add: eligible_def)
    then show ?thesis
      using attempt_first_eligible [OF wf2, of j c t tz cd] that k2 by simp
  qed
  with no show ?thesis unfolding Let_def by blast
qed

theorem penalized_key_returns_only_after_resume_witness:
  "Some ''b'' \<notin> set (fst (acquire_all utc_zone [(1700000001000, 0)]
       (snd (disableKey 1700000000000 ''b'' None pool_ab)))) \<and>
   (\<exists>km3. attempt utc_zone 1700000060000 0
       (snd (acquire_all utc_zone [(1700000001000, 0)]
          (snd (disableKey 1700000000000 ''b'' None pool_ab)))) = Got ''b'' km3)"
proof -
  let ?km2 = "snd (acquire_all utc_zone [(1700000001000, 0)]
       (snd (disableKey 1700000000000 ''b'' None pool_ab)))"
  have wf: "currentIndex pool_ab < length (keys pool_ab)" by (simp add: pool_ab_def)
  have res: "resolveDisabledUntil 1700000000000 (cooldownSeconds pool_ab) None = Valid 1700000060000"
    by (simp add: pool_ab_def resolveDisabledUntil_def new_Date_def MAX_TIME_def)
  have calls: "list_all (\<lambda>(t, cd). t < 1700000060000) [(1700000001000 :: int, 0 :: int)]" by simp
  have ci: "currentIndex ?km2 = 1"
    by (simp add: pool_ab_def disableKey_def resolveDisabledUntil_def new_Date_def MAX_TIME_def
      attempt_def Let_def setCooldown_def)
  have k: "keys pool_ab ! ((currentIndex ?km2 + 0) mod length (keys pool_ab)) = ''b''"
    unfolding ci by (simp add: pool_ab_def)
  from penalized_key_returns_only_after_resume [OF wf res calls, of utc_zone "''b''"] k
  show ?thesis unfolding Let_def
    by (metis (no_types, lifting) add.right_neutral length_greater_0_conv less_nat_zero_code
        not_less_zero order_refl wf list.size(3))
qed

text \<open>
  The claim as written fails: in a pool of two keys with the cursor on the first, the second
  is penalized for the default sixty seconds; the first call made when the sixty seconds have
  passed returns the first key, not the penalized one.
\<close>

theorem first_call_after_resume_returns_other_key:
  "resolveDisabledUntil 1700000000000 (cooldownSeconds pool_ab) None = Valid 1700000060000 \<and>
   fst (getNextKey utc_zone [] 1700000060000 0 (snd (disableKey 1700000000000 ''b'' None pool_ab)))
     = Some (''a'', 1700000060000)"
  by (simp add: pool_ab_def disableKey_def resolveDisabledUntil_def new_Date_def MAX_TIME_def
      attempt_def Let_def setCooldown_def)

text \<open>
  Claim C2, as the code has it. In a pool of \<open>N \<ge> 1\<close> keys where no penalty is pending
  (every entry of the map, if any, has expired by \<open>t0\<close>), calls of \<open>getNextKey\<close>
  with the default cooldown argument 0, at instants from \<open>t0\<close> on and with no
  \<open>disableKey\<close> in between, return the keys in rotation from the cursor: the \<open>i\<close>-th
  call returns the key at index \<open>(cursor + i) mod N\<close>, so \<open>N\<close> calls return every slot
  of the pool once before any slot comes again. And in any state and with any cooldown
  argument, a scan examines the candidates in order from the cursor and moves the cursor by
  one modulo \<open>N\<close> for each candidate it examines, chosen or not: it chooses none only when
  all \<open>N\<close> are ineligible, and then the pool is as before but for the cursor, moved
  \<open>N\<close> times; it chooses the first eligible candidate, \<open>j\<close> places from the cursor,
  and leaves the cursor \<open>j + 1\<close> places further.
\<close>

theorem round_robin_without_penalties:
  assumes wf: "currentIndex km < length (keys km)"
    and np: "list_all (\<lambda>(k, d). date_ge (Valid t0) d) (disabledUntil km)"
    and ts: "list_all (\<lambda>t. t0 \<le> t) ts"
  shows "fst (acquire_all tz (map (\<lambda>t. (t, 0)) ts) km) =
           map (\<lambda>i. Some (keys km ! ((currentIndex km + i) mod length (keys km)))) [0..<length ts] \<and>
         (length ts = length (keys km) \<longrightarrow>
            fst (acquire_all tz (map (\<lambda>t. (t, 0)) ts) km) =
              map Some (rotate (currentIndex km) (keys km))) \<and>
         (\<forall>kmx now cd. currentIndex kmx < length (keys kmx) \<longrightarrow>
            (case scan tz now cd (length (keys kmx)) kmx of
               (None, km') \<Rightarrow>
                 km' = kmx\<lparr>currentIndex :=
                   (currentIndex kmx + length (keys kmx)) mod length (keys kmx)\<rparr> \<and>
                 (\<forall>i<length (keys kmx). \<not> eligible now kmx
                    (keys kmx ! ((currentIndex kmx + i) mod length (keys kmx))))
             | (Some k, km') \<Rightarrow>
                 (\<exists>j<length (keys kmx).
                    k = keys kmx ! ((currentIndex kmx + j) mod length (keys kmx)) \<and>
                    eligible now kmx k \<and>
                    (\<forall>i<j. \<not> eligible now kmx
                       (keys kmx ! ((currentIndex kmx + i) mod length (keys kmx)))) \<and>
                    currentIndex km' =
                      (currentIndex kmx + (j + 1)) mod length (keys kmx))))"
proof (intro conjI allI impI)
  show run: "fst (acquire_all tz (map (\<lambda>t. (t, 0)) ts) km) =
      map (\<lambda>i. Some (keys km ! ((currentIndex km + i) mod length (keys km)))) [0..<length ts]"
    by (rule round_robin_run [OF wf np ts, THEN conjunct1])
  show "fst (acquire_all tz (map (\<lambda>t. (t, 0)) ts) km) = map Some (rotate (currentIndex km) (keys km))"
    if len: "length ts = length (keys km)"
  proof -
    have "map Some (rotate (currentIndex km) (keys km)) =
        map Some (map (\<lambda>i. keys km ! ((currentIndex km + i) mod length (keys km)))
          [0..<length (keys km)])"
      by (simp only: map_rotate_index)
    also have "\<dots> = map (\<lambda>i. Some (keys km ! ((currentIndex km + i) mod length (keys km))))
          [0..<length ts]"
      by (simp only: len map_map comp_def)
    finally show ?thesis using run by simp
  qed
next
  fix kmx :: key_manager and now cd :: int
  assume wfx: "currentIndex kmx < length (keys kmx)"
  from scan_cursor [OF wfx, where tz = tz and now = now and cd = cd and n = "length (keys kmx)"]
  show "case scan tz now cd (length (keys kmx)) kmx of
          (None, km') \<Rightarrow>
            km' = kmx\<lparr>currentIndex :=
              (currentIndex kmx + length (keys kmx)) mod length (keys kmx)\<rparr> \<and>
            (\<forall>i<length (keys kmx). \<not> eligible now kmx
               (keys kmx ! ((currentIndex kmx + i) mod length (keys kmx))))
        | (Some k, km') \<Rightarrow>
            (\<exists>j<length (keys kmx).
               k = keys kmx ! ((currentIndex kmx + j) mod length (keys kmx)) \<and>
               eligible now kmx k \<and>
               (\<forall>i<j. \<not> eligible now kmx
                  (keys kmx ! ((currentIndex kmx + i) mod length (keys kmx)))) \<and>
               currentIndex km' = (currentIndex kmx + (j + 1)) mod length (keys kmx))"
    by (simp only: add.assoc)
qed

theorem round_robin_without_penalties_witness:
  "currentIndex pool_ab < length (keys pool_ab) \<and>
   fst (acquire_all utc_zone (map (\<lambda>t. (t, 0)) [1700000000000, 1700000000005]) pool_ab) =
     [Some ''a'', Some ''b'']"
proof -
  have wf: "currentIndex pool_ab < length (keys pool_ab)" by (simp add: pool_ab_def)
  have np: "list_all (\<lambda>(k, d). date_ge (Valid 1700000000000) d) (disabledUntil pool_ab)"
    by (simp add: pool_ab_def)
  have ts: "list_all (\<lambda>t. 1700000000000 \<le> t) [1700000000000 :: int, 1700000000005]" by simp
  have len: "length [1700000000000 :: int, 1700000000005] = length (keys pool_ab)"
    by (simp add: pool_ab_def)
  have rot: "rotate (currentIndex pool_ab) (keys pool_ab) = [''a'', ''b'']"
    by (simp add: pool_ab_def)
  note run = round_robin_without_penalties [OF wf np ts, THEN conjunct2, THEN conjunct1,
      rule_format, OF len]
  have "fst (acquire_all utc_zone (map (\<lambda>t. (t, 0)) [1700000000000, 1700000000005]) pool_ab) =
      [Some ''a'', Some ''b'']"
    unfolding run rot by simp
  with wf show ?thesis by (simp only: simp_thms)
qed

text \<open>
  The claim as written fails on a pool with a penalty pending. In a pool of two keys the
  second is penalized, and then two calls follow with no \<open>disableKey\<close> between them:
  both return the first key. And a call that passes a cooldown of sixty seconds penalizes
  the key it returns: of the three calls that follow one another here the second and the
  third return the same key, while the first key is still cooling.
\<close>

theorem pending_penalty_breaks_rotation:
  "fst (acquire_all utc_zone [(1700000001000, 0), (1700000002000, 0)]
          (snd (disableKey 1700000000000 ''b'' None pool_ab))) = [Some ''a'', Some ''a''] \<and>
   fst (acquire_all utc_zone [(1700000000000, 60), (1700000001000, 0), (1700000002000, 0)]
          pool_ab) = [Some ''a'', Some ''b'', Some ''b'']"
  by (simp add: pool_ab_def disableKey_def resolveDisabledUntil_def new_Date_def MAX_TIME_def
      attempt_def Let_def setCooldown_def setSeconds_def LocalTime_def UTC_def utc_zone_def
      AList.delete_eq)

lemma resolve_eq_spec:
  assumes "0 \<le> now"
  shows "resolveDisabledUntil now cd hint = spec_resumeAt now cd hint"
proof (cases hint)
  case None
  then show ?thesis by (simp add: resolveDisabledUntil_def spec_resumeAt_def)
next
  case (Some x)
  show ?thesis
  proof (cases x)
    case NaN
    with Some show ?thesis by (simp add: resolveDisabledUntil_def spec_resumeAt_def)
  next
    case (Num h)
    have cmp: "(h * 1000 > now) = (h > now div 1000)" by linarith
    show ?thesis
    proof (cases "h = 0")
      case True
      with Some Num assms show ?thesis
        by (simp add: resolveDisabledUntil_def spec_resumeAt_def new_Date_def MAX_TIME_def)
    next
      case False
      with Some Num cmp show ?thesis
        by (simp add: resolveDisabledUntil_def spec_resumeAt_def resetDatetime_def Let_def)
    qed
  qed
qed

lemma resolve_collapsed:
  "resolveDisabledUntil now cd hint =
     (case hint of
        Some (Num h) \<Rightarrow> if h \<noteq> 0 \<and> now < h \<and> h \<le> MAX_TIME \<and> - MAX_TIME \<le> h then Valid h
                        else new_Date (now + cd * 1000)
      | _ \<Rightarrow> new_Date (now + cd * 1000))"
  by (auto simp: resolveDisabledUntil_def resetDatetime_def new_Date_def
      split: option.splits js_number.splits)

text \<open>
  Claim C3. \<open>disableKey\<close> sets the entry of the key, whatever it was before, to the resume
  time the specification describes (\<open>spec_resumeAt\<close>), and leaves the other entries alone;
  without a hint the entry is exactly now plus the default cooldown. The current instant is
  an epoch time, not negative.
\<close>

theorem disableKey_sets_resume_time:
  assumes "0 \<le> now"
  shows "map_of (disabledUntil (snd (disableKey now c hint km))) c =
           Some (spec_resumeAt now (cooldownSeconds km) hint) \<and>
         (\<forall>k. k \<noteq> c \<longrightarrow>
            map_of (disabledUntil (snd (disableKey now c hint km))) k =
              map_of (disabledUntil km) k) \<and>
         (hint = None \<longrightarrow>
            map_of (disabledUntil (snd (disableKey now c hint km))) c =
              Some (new_Date (now + cooldownSeconds km * 1000)))"
  using assms
  by (simp add: disableKey_entry resolve_eq_spec disableKey_def Let_def update_conv'
      spec_resumeAt_def)

theorem disableKey_sets_resume_time_witness:
  "(0::int) \<le> 1700000000000 \<and>
   map_of (disabledUntil (snd (disableKey 1700000000000 ''a'' (Some (Num 1700000030000)) pool_a)))
     ''a'' = Some (Valid 1700000030000)"
  using disableKey_sets_resume_time [of 1700000000000 "''a''" "Some (Num 1700000030000)" pool_a]
  by (simp add: spec_resumeAt_def new_Date_def MAX_TIME_def Let_def)

lemma fold_soonest:
  "\<exists>m. fold (\<lambda>current earliest. if date_lt current earliest then current else earliest)
          ds (Valid a) = Valid m \<and> m \<le> a \<and>
        (\<forall>t. Valid t \<in> set ds \<longrightarrow> m \<le> t) \<and> (m = a \<or> Valid m \<in> set ds)"
proof (induction ds arbitrary: a)
  case Nil
  then show ?case by simp
next
  case (Cons d ds)
  show ?case
  proof (cases d)
    case Invalid
    with Cons.IH [of a] show ?thesis by auto
  next
    case (Valid t)
    show ?thesis
    proof (cases "t < a")
      case True
      with Cons.IH [of t] Valid show ?thesis by auto
    next
      case False
      with Cons.IH [of a] Valid show ?thesis by auto
    qed
  qed
qed

lemma index_reached:
  assumes "i < (n::nat)" "c < n"
  shows "\<exists>j<n. (c + j) mod n = i"
proof (cases "c \<le> i")
  case True
  with assms show ?thesis by (intro exI [of _ "i - c"]) simp
next
  case False
  with assms have "(c + (i + n - c)) mod n = i" by simp
  with False assms show ?thesis by (intro exI [of _ "i + n - c"]) simp
qed

lemma attempt_none_eligible:
  assumes wf: "currentIndex km < length (keys km)"
    and none: "\<forall>k\<in>set (keys km). \<not> eligible now km k"
  shows "attempt tz now cd km = Sleep (waitMs now km) (km\<lparr>lockPromise := False\<rparr>)"
proof -
  let ?km = "km\<lparr>lockPromise := True\<rparr>"
  let ?N = "length (keys km)"
  have wf': "currentIndex ?km < length (keys ?km)" using wf by simp
  have pos: "0 < ?N" using wf by (cases "keys km") simp_all
  note sc = scan_cursor [OF wf', where tz = tz and now = now and cd = cd and n = ?N]
  show ?thesis
  proof (cases rule: attempt_scan [of tz now cd km])
    case (got k km1)
    with sc obtain j where "j < ?N" "k = keys km ! ((currentIndex km + j) mod ?N)"
      "eligible now km k" by auto
    moreover have "keys km ! ((currentIndex km + j) mod ?N) \<in> set (keys km)"
      using pos by (intro nth_mem) simp
    ultimately show ?thesis using none by auto
  next
    case (sleep km1)
    with sc have "km1 = ?km\<lparr>currentIndex := (currentIndex km + ?N) mod ?N\<rparr>" by simp
    then have "km1 = ?km" using wf by simp
    with sleep show ?thesis by (simp add: waitMs_def soonestAvailable_def)
  qed
qed

lemma attempt_some_eligible:
  assumes wf: "currentIndex km < length (keys km)"
    and k0: "k0 \<in> set (keys km)" "eligible now km k0"
  shows "\<exists>k km'. attempt tz now cd km = Got k km' \<and> k \<in> set (keys km) \<and> eligible now km k"
proof -
  let ?km = "km\<lparr>lockPromise := True\<rparr>"
  let ?N = "length (keys km)"
  have wf': "currentIndex ?km < length (keys ?km)" using wf by simp
  have pos: "0 < ?N" using wf by (cases "keys km") simp_all
  note sc = scan_cursor [OF wf', where tz = tz and now = now and cd = cd and n = ?N]
  show ?thesis
  proof (cases rule: attempt_scan [of tz now cd km])
    case (got k km1)
    with sc obtain j where "j < ?N" "k = keys km ! ((currentIndex km + j) mod ?N)"
      "eligible now km k" by auto
    moreover have "keys km ! ((currentIndex km + j) mod ?N) \<in> set (keys km)"
      using pos by (intro nth_mem) simp
    ultimately show ?thesis using got by simp
  next
    case (sleep km1)
    with sc have ne: "\<forall>i<?N. \<not> eligible now km (keys km ! ((currentIndex km + i) mod ?N))"
      by simp
    from k0(1) obtain i where i: "i < ?N" "keys km ! i = k0" by (auto simp: in_set_conv_nth)
    from index_reached [OF i(1) wf] obtain j where "j < ?N" "(currentIndex km + j) mod ?N = i"
      by blast
    with ne i k0(2) show ?thesis by auto
  qed
qed

lemma setTimeout_delay_pos: "1 \<le> setTimeout_delay w"
  by (simp add: setTimeout_delay_def)

lemma setTimeout_delay_exact: "1 \<le> w \<Longrightarrow> w \<le> TIMEOUT_MAX \<Longrightarrow> setTimeout_delay w = w"
  by (simp add: setTimeout_delay_def)

lemma setTimeout_delay_le: "setTimeout_delay w \<le> max 1 w"
  by (simp add: setTimeout_delay_def)

lemma getNextKey_got:
  "attempt tz now cd km = Got k km' \<Longrightarrow> getNextKey tz sched now cd km = (Some (k, now), km')"
  by simp

lemma getNextKey_sleep_end:
  "attempt tz now cd km = Sleep w km' \<Longrightarrow> getNextKey tz [] now cd km = (None, km')"
  by simp

lemma getNextKey_sleep:
  "attempt tz now cd km = Sleep w km' \<Longrightarrow>
   getNextKey tz ((late, others) # rest) now cd km =
     getNextKey tz rest (now + setTimeout_delay w + int late) cd (fold (run_other tz) others km')"
  by simp

lemma attempt_got_eligible:
  assumes wf: "currentIndex km < length (keys km)"
    and got: "attempt tz now cd km = Got k km'"
  shows "k \<in> set (keys km) \<and> eligible now km k"
proof -
  let ?km = "km\<lparr>lockPromise := True\<rparr>"
  let ?N = "length (keys km)"
  have wf': "currentIndex ?km < length (keys ?km)" using wf by simp
  have pos: "0 < ?N" using wf by (cases "keys km") simp_all
  note sc = scan_cursor [OF wf', where tz = tz and now = now and cd = cd and n = ?N]
  show ?thesis
  proof (cases rule: attempt_scan [of tz now cd km])
    case (got k1 km1)
    with sc obtain j where "j < ?N" "k1 = keys km ! ((currentIndex km + j) mod ?N)"
      "eligible now km k1" by auto
    moreover have "keys km ! ((currentIndex km + j) mod ?N) \<in> set (keys km)"
      using pos by (intro nth_mem) simp
    ultimately show ?thesis using got \<open>attempt tz now cd km = Got k km'\<close> by simp
  next
    case (sleep km1)
    with got show ?thesis by simp
  qed
qed

lemma run_other_frame:
  "currentIndex km < length (keys km) \<Longrightarrow>
   keys (run_other tz x km) = keys km \<and> currentIndex (run_other tz x km) < length (keys km)"
proof (cases x)
  case (OtherDisable t key hint)
  assume "currentIndex km < length (keys km)"
  with OtherDisable disableKey_frame [of t key hint km] show ?thesis by simp
next
  case (OtherAttempt t cd)
  assume "currentIndex km < length (keys km)"
  with OtherAttempt attempt_frame [of tz t cd km] attempt_index_bound [of km tz t cd]
  show ?thesis by simp
qed

lemma fold_run_other_frame:
  "currentIndex km < length (keys km) \<Longrightarrow>
   keys (fold (run_other tz) others km) = keys km \<and>
   currentIndex (fold (run_other tz) others km) < length (keys km)"
proof (induction others arbitrary: km)
  case Nil
  then show ?case by simp
next
  case (Cons x others)
  from run_other_frame [OF Cons.prems, of tz x]
  have k: "keys (run_other tz x km) = keys km"
    and c: "currentIndex (run_other tz x km) < length (keys (run_other tz x km))" by simp_all
  from Cons.IH [OF c] k show ?case by simp
qed

lemma getNextKey_result:
  "currentIndex km < length (keys km) \<Longrightarrow>
   getNextKey tz sched now cd km = (Some (k, t), km') \<Longrightarrow> k \<in> set (keys km) \<and> now \<le> t"
proof (induction sched arbitrary: now km)
  case Nil
  show ?case
  proof (cases "attempt tz now cd km")
    case (Got k1 km1)
    with Nil.prems(2) have "k1 = k" "t = now" by simp_all
    with attempt_got_eligible [OF Nil.prems(1)] Got show ?thesis by simp
  next
    case (Sleep w km1)
    with Nil.prems(2) show ?thesis by simp
  qed
next
  case (Cons e rest)
  obtain late others where e: "e = (late, others)" by (cases e)
  show ?case
  proof (cases "attempt tz now cd km")
    case (Got k1 km1)
    with Cons.prems(2) have "k1 = k" "t = now" by simp_all
    with attempt_got_eligible [OF Cons.prems(1)] Got show ?thesis by simp
  next
    case (Sleep w km1)
    let ?now' = "now + setTimeout_delay w + int late"
    let ?km2 = "fold (run_other tz) others km1"
    have km1: "km1 = pool_of (attempt tz now cd km)" using Sleep by simp
    have wf1: "currentIndex km1 < length (keys km1)" and k1: "keys km1 = keys km"
      unfolding km1
      using attempt_index_bound [OF Cons.prems(1), of tz now cd] attempt_frame [of tz now cd km]
      by simp_all
    from fold_run_other_frame [OF wf1, of tz others]
    have wf2: "currentIndex ?km2 < length (keys ?km2)" and k2: "keys ?km2 = keys km"
      using k1 by simp_all
    have "getNextKey tz rest ?now' cd ?km2 = (Some (k, t), km')"
      using Cons.prems(2) e by (simp only: getNextKey_sleep [OF Sleep])
    from Cons.IH [OF wf2 this] k2 setTimeout_delay_pos [of w] show ?thesis by simp
  qed
qed

lemma quiet_returns:
  "currentIndex km < length (keys km) \<Longrightarrow> k0 \<in> set (keys km) \<Longrightarrow>
   map_of (disabledUntil km) k0 = Some (Valid T0) \<Longrightarrow>
   list_all (\<lambda>(late, others). others = []) sched \<Longrightarrow> nat (T0 - now) \<le> length sched \<Longrightarrow>
   \<exists>k t km'. getNextKey tz sched now cd km = (Some (k, t), km') \<and>
      k \<in> set (keys km) \<and> eligible t km k"
proof (induction sched arbitrary: now km)
  case Nil
  then have "T0 \<le> now" by simp
  with Nil.prems(3) have "eligible now km k0" by (simp add: eligible_def)
  from attempt_some_eligible [OF Nil.prems(1,2) this, of tz cd]
  obtain k km' where "attempt tz now cd km = Got k km'" "k \<in> set (keys km)" "eligible now km k"
    by blast
  with getNextKey_got [of tz now cd km k km' "[]"] show ?case by blast
next
  case (Cons e rest)
  obtain late others where e: "e = (late, others)" by (cases e)
  with Cons.prems(4) have quiet: "others = []" "list_all (\<lambda>(late, others). others = []) rest"
    by simp_all
  show ?case
  proof (cases "\<exists>k\<in>set (keys km). eligible now km k")
    case True
    then obtain k1 where "k1 \<in> set (keys km)" "eligible now km k1" by blast
    from attempt_some_eligible [OF Cons.prems(1) this, of tz cd]
    obtain k km' where "attempt tz now cd km = Got k km'" "k \<in> set (keys km)" "eligible now km k"
      by blast
    with getNextKey_got [of tz now cd km k km' "e # rest"] show ?thesis by blast
  next
    case False
    then have none: "\<forall>k\<in>set (keys km). \<not> eligible now km k" by blast
    let ?km1 = "km\<lparr>lockPromise := False\<rparr>"
    let ?now' = "now + setTimeout_delay (waitMs now km) + int late"
    have a: "attempt tz now cd km = Sleep (waitMs now km) ?km1"
      by (rule attempt_none_eligible [OF Cons.prems(1) none])
    from none Cons.prems(2,3) have "now < T0" by (auto simp: eligible_def)
    with Cons.prems(5) setTimeout_delay_pos [of "waitMs now km"]
    have fuel: "nat (T0 - ?now') \<le> length rest" by simp
    have step: "getNextKey tz (e # rest) now cd km = getNextKey tz rest ?now' cd ?km1"
      unfolding e quiet(1) by (simp only: getNextKey_sleep [OF a] fold.simps id_apply)
    have "\<exists>k t km'. getNextKey tz rest ?now' cd ?km1 = (Some (k, t), km') \<and>
        k \<in> set (keys ?km1) \<and> eligible t ?km1 k"
      using Cons.prems(1,2,3) quiet(2) fuel by (intro Cons.IH) simp_all
    with step show ?thesis by simp
  qed
qed

text \<open>
  Claim C4, as the code has it. Every key of the pool has a pending penalty (the map holds one
  entry per key, each a future instant), and the lock is free. Let \<open>m\<close> be the earliest
  resume time. A call of \<open>getNextKey\<close> finds nothing, leaves the pool as it was, with the
  lock released, and asks the timer for \<open>m - now\<close> milliseconds. Whatever other requests
  do meanwhile: a key it returns is a key of the pool, returned by a scan that found it
  eligible, and not before the timer's delay has passed, so not before \<open>m\<close> when the wait
  is one the timer can count; when it wakes it returns a key if one is eligible in the pool
  as it is then, and goes to sleep again if none is. If no other request touches the pool
  while it waits, it returns a key that is eligible then, not before \<open>m\<close>: after one
  sleep when the timer can count the wait, and at the latest after \<open>m - now\<close> sleeps.
  The result of \<open>getNextKey\<close> has no error value.
\<close>

theorem all_ineligible_sleeps_then_returns:
  assumes wf: "currentIndex km < length (keys km)"
    and unlocked: "\<not> lockPromise km"
    and dist: "distinct (map fst (disabledUntil km))"
    and pend: "list_all (\<lambda>(k, d). k \<in> set (keys km) \<and> date_gt d (Valid now) \<and>
                 date_ge (Valid MAX_TIME) d) (disabledUntil km)"
    and every: "list_all (\<lambda>k. map_of (disabledUntil km) k \<noteq> None) (keys km)"
  shows "\<exists>m. now < m \<and> Valid m \<in> snd ` set (disabledUntil km) \<and>
           list_all (\<lambda>(k, d). date_ge d (Valid m)) (disabledUntil km) \<and>
           attempt tz now cd km = Sleep (m - now) km \<and>
           (\<forall>sched k t km'. getNextKey tz sched now cd km = (Some (k, t), km') \<longrightarrow>
              k \<in> set (keys km) \<and> now + setTimeout_delay (m - now) \<le> t \<and>
              (m - now \<le> TIMEOUT_MAX \<longrightarrow> m \<le> t)) \<and>
           (\<forall>t km1 k km'. currentIndex km1 < length (keys km1) \<longrightarrow>
              attempt tz t cd km1 = Got k km' \<longrightarrow> k \<in> set (keys km1) \<and> eligible t km1 k) \<and>
           (\<forall>late others rest.
              (\<exists>k\<in>set (keys km). eligible (now + setTimeout_delay (m - now) + int late)
                  (fold (run_other tz) others km) k) \<longrightarrow>
              (\<exists>k km'. getNextKey tz ((late, others) # rest) now cd km =
                   (Some (k, now + setTimeout_delay (m - now) + int late), km') \<and>
                 k \<in> set (keys km) \<and>
                 eligible (now + setTimeout_delay (m - now) + int late)
                   (fold (run_other tz) others km) k)) \<and>
           (\<forall>late others.
              (\<forall>k\<in>set (keys km). \<not> eligible (now + setTimeout_delay (m - now) + int late)
                  (fold (run_other tz) others km) k) \<longrightarrow>
              fst (getNextKey tz [(late, others)] now cd km) = None) \<and>
           (\<forall>sched. list_all (\<lambda>(late, others). others = []) sched \<longrightarrow>
              nat (m - now) \<le> length sched \<longrightarrow>
              (\<exists>k t km'. getNextKey tz sched now cd km = (Some (k, t), km') \<and>
                 k \<in> set (keys km) \<and> eligible t km k \<and> m \<le> t)) \<and>
           (m - now \<le> TIMEOUT_MAX \<longrightarrow>
              (\<forall>late rest. \<exists>k km'.
                 getNextKey tz ((late, []) # rest) now cd km = (Some (k, m + int late), km') \<and>
                 k \<in> set (keys km) \<and> eligible (m + int late) km k))"
proof -
  let ?dU = "disabledUntil km"
  have entry: "\<exists>t. d = Valid t \<and> now < t \<and> t \<le> MAX_TIME \<and> k \<in> set (keys km)"
    if "(k, d) \<in> set ?dU" for k d
    using pend that by (cases d) (auto simp: list_all_iff)
  have none: "\<forall>k\<in>set (keys km). \<not> eligible now km k"
  proof
    fix k assume "k \<in> set (keys km)"
    with every obtain d where d: "map_of ?dU k = Some d" by (auto simp: list_all_iff)
    then have "(k, d) \<in> set ?dU" by (rule map_of_SomeD)
    from entry [OF this] d show "\<not> eligible now km k" by (auto simp: eligible_def)
  qed
  have km: "km\<lparr>lockPromise := False\<rparr> = km" using unlocked by simp
  have a: "attempt tz now cd km = Sleep (waitMs now km) km"
    using attempt_none_eligible [OF wf none, of tz cd] km by simp
  from fold_soonest [of "map snd ?dU" MAX_TIME]
  obtain m where so: "soonestAvailable km = Valid m" and le: "m \<le> MAX_TIME"
    and lower: "\<forall>t. Valid t \<in> set (map snd ?dU) \<longrightarrow> m \<le> t"
    and mem: "m = MAX_TIME \<or> Valid m \<in> set (map snd ?dU)"
    unfolding soonestAvailable_def by blast
  have ne: "keys km \<noteq> []" using wf by auto
  then obtain k1 where "k1 \<in> set (keys km)" by (cases "keys km") auto
  with every obtain d1 where "map_of ?dU k1 = Some d1" by (auto simp: list_all_iff)
  then have in1: "(k1, d1) \<in> set ?dU" by (rule map_of_SomeD)
  from entry [OF in1] obtain t1 where t1: "d1 = Valid t1" "t1 \<le> MAX_TIME" by blast
  have "Valid t1 \<in> set (map snd ?dU)" using in1 t1 by force
  with lower have "m \<le> t1" by blast
  have mem': "Valid m \<in> set (map snd ?dU)"
  proof (cases "m = MAX_TIME")
    case True
    with \<open>m \<le> t1\<close> t1 have "t1 = m" by simp
    with \<open>Valid t1 \<in> set (map snd ?dU)\<close> show ?thesis by simp
  next
    case False
    with mem show ?thesis by simp
  qed
  then obtain k0 where in0: "(k0, Valid m) \<in> set ?dU" by auto
  from entry [OF in0] have mgt: "now < m" and k0: "k0 \<in> set (keys km)" by simp_all
  have w: "waitMs now km = m - now" using so mgt by (simp add: waitMs_def)
  have a': "attempt tz now cd km = Sleep (m - now) km" using a w by simp
  have all_ge: "list_all (\<lambda>(k, d). date_ge d (Valid m)) ?dU"
    unfolding list_all_iff
  proof (intro ballI)
    fix e assume e: "e \<in> set ?dU"
    obtain k d where kd: "e = (k, d)" by (cases e)
    from entry [of k d] e kd obtain t where t: "d = Valid t" by blast
    with e kd have "Valid t \<in> set (map snd ?dU)" by force
    with lower have "m \<le> t" by blast
    with kd t show "case e of (k, d) \<Rightarrow> date_ge d (Valid m)" by simp
  qed
  have map0: "map_of ?dU k0 = Some (Valid m)" using dist in0 by simp
  have late_enough: "m \<le> t" if "k \<in> set (keys km)" "eligible t km k" for k t
  proof -
    from every that(1) obtain d where d: "map_of ?dU k = Some d" by (auto simp: list_all_iff)
    then have "(k, d) \<in> set ?dU" by (rule map_of_SomeD)
    with all_ge have "date_ge d (Valid m)" by (auto simp: list_all_iff)
    moreover from that(2) d have "date_ge (Valid t) d" by (simp add: eligible_def)
    ultimately show ?thesis by (cases d) simp_all
  qed
  have any: "k \<in> set (keys km) \<and> now + setTimeout_delay (m - now) \<le> t \<and>
      (m - now \<le> TIMEOUT_MAX \<longrightarrow> m \<le> t)"
    if ret: "getNextKey tz sched now cd km = (Some (k, t), km')" for sched k t km'
  proof (cases sched)
    case Nil
    with ret getNextKey_sleep_end [OF a'] show ?thesis by simp
  next
    case (Cons e rest)
    obtain late others where e: "e = (late, others)" by (cases e)
    let ?now' = "now + setTimeout_delay (m - now) + int late"
    let ?km2 = "fold (run_other tz) others km"
    from fold_run_other_frame [OF wf, of tz others]
    have wf2: "currentIndex ?km2 < length (keys ?km2)" and k2: "keys ?km2 = keys km"
      by simp_all
    have "getNextKey tz rest ?now' cd ?km2 = (Some (k, t), km')"
      using ret Cons e by (simp only: getNextKey_sleep [OF a'])
    from getNextKey_result [OF wf2 this] k2
    have kk: "k \<in> set (keys km)" and tt: "?now' \<le> t" by simp_all
    have "m \<le> t" if "m - now \<le> TIMEOUT_MAX"
      using tt that mgt setTimeout_delay_exact [of "m - now"] by simp
    with kk tt show ?thesis by simp
  qed
  have quiet: "\<exists>k t km'. getNextKey tz sched now cd km = (Some (k, t), km') \<and>
      k \<in> set (keys km) \<and> eligible t km k \<and> m \<le> t"
    if "list_all (\<lambda>(late, others). others = []) sched" "nat (m - now) \<le> length sched" for sched
  proof -
    from quiet_returns [OF wf k0 map0 that, of tz cd]
    obtain k t km' where "getNextKey tz sched now cd km = (Some (k, t), km')"
      "k \<in> set (keys km)" "eligible t km k" by blast
    with late_enough [of k t] show ?thesis by blast
  qed
  have once: "\<exists>k km'. getNextKey tz ((late, []) # rest) now cd km =
        (Some (k, m + int late), km') \<and>
      k \<in> set (keys km) \<and> eligible (m + int late) km k"
    if short: "m - now \<le> TIMEOUT_MAX" for late rest
  proof -
    let ?t = "m + int late"
    have d: "now + setTimeout_delay (m - now) + int late = ?t"
      using short mgt setTimeout_delay_exact [of "m - now"] by simp
    have "eligible ?t km k0" using map0 by (simp add: eligible_def)
    from attempt_some_eligible [OF wf k0 this, of tz cd]
    obtain k km' where g: "attempt tz ?t cd km = Got k km'" and kk: "k \<in> set (keys km)"
      and el: "eligible ?t km k" by blast
    have "getNextKey tz ((late, []) # rest) now cd km = getNextKey tz rest ?t cd km"
      by (simp only: getNextKey_sleep [OF a'] d fold.simps id_apply)
    also have "\<dots> = (Some (k, ?t), km')" by (rule getNextKey_got [OF g])
    finally show ?thesis using kk el by blast
  qed
  have wake: "\<exists>k km'. getNextKey tz ((late, others) # rest) now cd km =
        (Some (k, now + setTimeout_delay (m - now) + int late), km') \<and>
      k \<in> set (keys km) \<and>
      eligible (now + setTimeout_delay (m - now) + int late) (fold (run_other tz) others km) k"
    if ex: "\<exists>k\<in>set (keys km). eligible (now + setTimeout_delay (m - now) + int late)
        (fold (run_other tz) others km) k" for late others rest
  proof -
    let ?t = "now + setTimeout_delay (m - now) + int late"
    let ?km2 = "fold (run_other tz) others km"
    from fold_run_other_frame [OF wf, of tz others]
    have wf2: "currentIndex ?km2 < length (keys ?km2)" and k2: "keys ?km2 = keys km"
      by simp_all
    from ex k2 obtain k1 where "k1 \<in> set (keys ?km2)" "eligible ?t ?km2 k1" by auto
    from attempt_some_eligible [OF wf2 this, of tz cd]
    obtain k km' where g: "attempt tz ?t cd ?km2 = Got k km'" and kk: "k \<in> set (keys ?km2)"
      and el: "eligible ?t ?km2 k" by blast
    have "getNextKey tz ((late, others) # rest) now cd km = getNextKey tz rest ?t cd ?km2"
      by (simp only: getNextKey_sleep [OF a'])
    also have "\<dots> = (Some (k, ?t), km')" by (rule getNextKey_got [OF g])
    finally show ?thesis using kk el k2 by auto
  qed
  have again: "fst (getNextKey tz [(late, others)] now cd km) = None"
    if no: "\<forall>k\<in>set (keys km). \<not> eligible (now + setTimeout_delay (m - now) + int late)
        (fold (run_other tz) others km) k" for late others
  proof -
    let ?t = "now + setTimeout_delay (m - now) + int late"
    let ?km2 = "fold (run_other tz) others km"
    from fold_run_other_frame [OF wf, of tz others]
    have wf2: "currentIndex ?km2 < length (keys ?km2)" and k2: "keys ?km2 = keys km"
      by simp_all
    from no k2 have none2: "\<forall>k\<in>set (keys ?km2). \<not> eligible ?t ?km2 k" by simp
    have s2: "attempt tz ?t cd ?km2 = Sleep (waitMs ?t ?km2) (?km2\<lparr>lockPromise := False\<rparr>)"
      by (rule attempt_none_eligible [OF wf2 none2])
    have "getNextKey tz [(late, others)] now cd km = getNextKey tz [] ?t cd ?km2"
      by (simp only: getNextKey_sleep [OF a'])
    also have "\<dots> = (None, ?km2\<lparr>lockPromise := False\<rparr>)"
      by (rule getNextKey_sleep_end [OF s2])
    finally show ?thesis by simp
  qed
  have got: "k \<in> set (keys km1) \<and> eligible t km1 k"
    if "currentIndex km1 < length (keys km1)" "attempt tz t cd km1 = Got k km'" for t km1 k km'
    using that by (rule attempt_got_eligible)
  have mem'': "Valid m \<in> snd ` set ?dU" using mem' by simp
  show ?thesis
    apply (rule exI [of _ m])
    apply (intro conjI allI impI)
    using mgt mem'' all_ge a' any got wake again quiet once by blast+
qed

theorem all_ineligible_sleeps_then_returns_witness:
  "attempt utc_zone 1700000001000 0 pool_a_cooling = Sleep 59000 pool_a_cooling \<and>
   (\<exists>k km'. getNextKey utc_zone [(5, [])] 1700000001000 0 pool_a_cooling =
      (Some (k, 1700000060005), km') \<and> k \<in> set (keys pool_a_cooling))"
proof -
  have wf: "currentIndex pool_a_cooling < length (keys pool_a_cooling)"
    by (simp add: pool_a_cooling_def)
  have unlocked: "\<not> lockPromise pool_a_cooling" by (simp add: pool_a_cooling_def)
  have dist: "distinct (map fst (disabledUntil pool_a_cooling))"
    by (simp add: pool_a_cooling_def)
  have pend: "list_all (\<lambda>(k, d). k \<in> set (keys pool_a_cooling) \<and>
       date_gt d (Valid 1700000001000) \<and> date_ge (Valid MAX_TIME) d)
       (disabledUntil pool_a_cooling)"
    by (simp add: pool_a_cooling_def MAX_TIME_def)
  have every: "list_all (\<lambda>k. map_of (disabledUntil pool_a_cooling) k \<noteq> None)
       (keys pool_a_cooling)"
    by (simp add: pool_a_cooling_def)
  from all_ineligible_sleeps_then_returns [OF wf unlocked dist pend every, of utc_zone 0]
  obtain m where m: "Valid m \<in> snd ` set (disabledUntil pool_a_cooling)"
    and a: "attempt utc_zone 1700000001000 0 pool_a_cooling =
        Sleep (m - 1700000001000) pool_a_cooling"
    and once: "m - 1700000001000 \<le> TIMEOUT_MAX \<longrightarrow>
        (\<forall>late rest. \<exists>k km'.
           getNextKey utc_zone ((late, []) # rest) 1700000001000 0 pool_a_cooling =
             (Some (k, m + int late), km') \<and>
           k \<in> set (keys pool_a_cooling) \<and> eligible (m + int late) pool_a_cooling k)"
    by blast
  from m have m': "m = 1700000060000" by (simp add: pool_a_cooling_def)
  have "m - 1700000001000 \<le> TIMEOUT_MAX" unfolding m' by (simp add: TIMEOUT_MAX_def)
  with once have "\<exists>k km'.
      getNextKey utc_zone ((5, []) # []) 1700000001000 0 pool_a_cooling =
        (Some (k, m + int 5), km') \<and>
      k \<in> set (keys pool_a_cooling) \<and> eligible (m + int 5) pool_a_cooling k"
    by blast
  with a show ?thesis unfolding m' by auto
qed

lemma cooling_attempt:
  assumes "now < T" "0 \<le> T"
  shows "\<exists>w. attempt tz now 0 (cooling (new_Date T)) = Sleep w (cooling (new_Date T)) \<and>
           now + setTimeout_delay w \<le> T"
proof -
  let ?km = "cooling (new_Date T)"
  have wf: "currentIndex ?km < length (keys ?km)" by (simp add: cooling_def)
  have "\<not> eligible now ?km ''a''"
    using assms by (simp add: cooling_def eligible_def new_Date_def)
  then have none: "\<forall>k\<in>set (keys ?km). \<not> eligible now ?km k" by (simp add: cooling_def)
  have km: "?km\<lparr>lockPromise := False\<rparr> = ?km" by (simp add: cooling_def)
  have a: "attempt tz now 0 ?km = Sleep (waitMs now ?km) ?km"
    using attempt_none_eligible [OF wf none, of tz 0] km by simp
  have "waitMs now ?km \<le> max 0 (T - now)"
    using assms
    by (auto simp: waitMs_def soonestAvailable_def cooling_def new_Date_def)
  with setTimeout_delay_le [of "waitMs now ?km"] assms(1)
  have "now + setTimeout_delay (waitMs now ?km) \<le> T" by simp
  with a show ?thesis by blast
qed

lemma renew_cooling:
  "snd (disableKey (T - 1) ''a'' None (cooling d)) = cooling (new_Date (T + 59999))"
  by (simp add: cooling_def disableKey_def resolveDisabledUntil_def Let_def add.commute)

text \<open>
  Under the schedule of renewals the caller is still waiting after any number of sleeps.
\<close>

lemma renewed_penalties_starve:
  "now < T \<Longrightarrow> 0 \<le> T \<Longrightarrow>
   fst (getNextKey tz (renewals n T) now 0 (cooling (new_Date T))) = None"
proof (induction n arbitrary: now T)
  case 0
  from cooling_attempt [OF "0.prems", of tz] obtain w
    where "attempt tz now 0 (cooling (new_Date T)) = Sleep w (cooling (new_Date T))" by blast
  then show ?case by (simp only: renewals.simps getNextKey_sleep_end fst_conv)
next
  case (Suc n)
  from cooling_attempt [OF Suc.prems, of tz] obtain w
    where a: "attempt tz now 0 (cooling (new_Date T)) = Sleep w (cooling (new_Date T))"
      and t: "now + setTimeout_delay w \<le> T" by blast
  have "getNextKey tz (renewals (Suc n) T) now 0 (cooling (new_Date T)) =
      getNextKey tz (renewals n (T + 59999)) (now + setTimeout_delay w + int 0) 0
        (fold (run_other tz) [OtherDisable (T - 1) ''a'' None] (cooling (new_Date T)))"
    by (simp only: renewals.simps getNextKey_sleep [OF a])
  also have "\<dots> = getNextKey tz (renewals n (T + 59999)) (now + setTimeout_delay w) 0
        (cooling (new_Date (T + 59999)))"
    by (simp only: fold.simps run_other.simps renew_cooling id_apply comp_apply
        of_nat_0 add_0_right)
  finally show ?case
    using Suc.IH [of "now + setTimeout_delay w" "T + 59999"] Suc.prems(2) t by simp
qed

text \<open>
  The claim as written fails twice. The only key of the pool is cooling until 1700000060000,
  and a call at 1700000001000 goes to sleep. One millisecond before each of its wakings
  another request, which holds the same key, is told of a rate limit and penalizes the key
  for another sixty seconds. Every scan of the caller finds nothing: however many sleeps the
  schedule goes on for, the call has not returned. And a wait that the timer cannot count is
  cut to one millisecond: the key is cooling for 3000000000 milliseconds, the caller asks
  for that and wakes after one; another request has meanwhile replaced the penalty by one
  that ends then, and the call returns the key 2999999999 milliseconds early.
\<close>

theorem renewed_penalties_keep_caller_waiting:
  "(\<forall>n. fst (getNextKey utc_zone (renewals n 1700000060000) 1700000001000 0 pool_a_cooling)
      = None) \<and>
   attempt utc_zone 1700000000000 0 (cooling (Valid 1703000000000)) =
     Sleep 3000000000 (cooling (Valid 1703000000000)) \<and>
   getNextKey utc_zone [(0, [OtherDisable 1700000000000 ''a'' (Some (Num 1700000000001))])]
     1700000000000 0 (cooling (Valid 1703000000000)) = (Some (''a'', 1700000000001), pool_a)"
proof (intro conjI allI)
  fix n
  have "pool_a_cooling = cooling (new_Date 1700000060000)"
    by (simp add: pool_a_cooling_def cooling_def new_Date_def MAX_TIME_def)
  with renewed_penalties_starve [of 1700000001000 1700000060000 utc_zone n]
  show "fst (getNextKey utc_zone (renewals n 1700000060000) 1700000001000 0 pool_a_cooling)
     = None" by simp
next
  show "attempt utc_zone 1700000000000 0 (cooling (Valid 1703000000000)) =
     Sleep 3000000000 (cooling (Valid 1703000000000))"
    by (simp add: cooling_def attempt_def Let_def waitMs_def soonestAvailable_def MAX_TIME_def)
next
  show "getNextKey utc_zone
      [(0, [OtherDisable 1700000000000 ''a'' (Some (Num 1700000000001))])]
      1700000000000 0 (cooling (Valid 1703000000000)) = (Some (''a'', 1700000000001), pool_a)"
    by (simp add: pool_a_def cooling_def attempt_def Let_def setCooldown_def disableKey_def
        resolveDisabledUntil_def resetDatetime_def new_Date_def MAX_TIME_def waitMs_def
        soonestAvailable_def AList.delete_eq setTimeout_delay_def TIMEOUT_MAX_def)
qed

text \<open>
  The scenario of the specification with one key: the first call returns the key; a rate
  limit with a reset time thirty seconds ahead penalizes it; a second call ten seconds later
  sleeps the twenty seconds left and returns the key, with its entry cleared.
\<close>

lemma end_to_end_example:
  "getNextKey utc_zone [] 1700000000000 0 pool_a = (Some (''a'', 1700000000000), pool_a) \<and>
   snd (disableKey 1700000000000 ''a'' (Some (Num 1700000030000)) pool_a) =
     cooling (Valid 1700000030000) \<and>
   getNextKey utc_zone [(0, [])] 1700000010000 0 (cooling (Valid 1700000030000)) =
     (Some (''a'', 1700000030000), pool_a)"
  by (simp add: pool_a_def cooling_def attempt_def Let_def setCooldown_def disableKey_def
      resolveDisabledUntil_def resetDatetime_def new_Date_def MAX_TIME_def waitMs_def
      soonestAvailable_def AList.delete_eq setTimeout_delay_def TIMEOUT_MAX_def)

section \<open>Properties of the utilities\<close>

lemma bindE_simps [simp]:
  "bindE (Inl e) f = Inl e"
  "bindE (Inr x) f = f x"
  by (simp_all add: bindE_def)

lemma first_reset_eq:
  "truthy h \<Longrightarrow> first_reset h = Inr (first_truthy_header h)"
  by (cases h rule: truthy.cases)
    (auto simp: first_reset_def first_truthy_header_def reset_names_def prop_or_undefined_def
      split: option.splits)

lemma first_truthy_header_falsy:
  "\<not> truthy h \<Longrightarrow> first_truthy_header h = Undefined"
  by (cases h rule: truthy.cases)
    (auto simp: first_truthy_header_def reset_names_def prop_or_undefined_def)

lemma first_truthy_header_truthy:
  "first_truthy_header h = Undefined \<or> truthy (first_truthy_header h)"
proof -
  let ?xs = "filter truthy (map (prop_or_undefined h) reset_names)"
  show ?thesis
  proof (cases ?xs)
    case Nil
    then show ?thesis by (simp add: first_truthy_header_def)
  next
    case (Cons x xs)
    then have "x \<in> set ?xs" by simp
    then have "truthy x" by simp
    with Cons show ?thesis by (simp add: first_truthy_header_def)
  qed
qed

lemma headers_part:
  "bindE (get_prop h ''headers'') (\<lambda>hs. if truthy hs then first_reset hs else Inr Undefined) =
     (case get_prop h ''headers'' of Inl e \<Rightarrow> Inl e
      | Inr hs \<Rightarrow> Inr (first_truthy_header hs))"
  by (cases "get_prop h ''headers''") (simp_all add: first_reset_eq first_truthy_header_falsy)

lemma is_rate_limit_error_eq:
  "truthy err \<Longrightarrow> is_rate_limit_error err = Inr (rate_limit_shaped err)"
  by (cases err rule: truthy.cases)
    (auto simp: is_rate_limit_error_def split: option.splits)

lemma rate_limit_shaped_truthy: "rate_limit_shaped err \<Longrightarrow> truthy err"
  by (cases err rule: rate_limit_shaped.cases) auto

lemma get_prop_truthy: "truthy x \<Longrightarrow> get_prop x name = Inr (prop_or_undefined x name)"
  by (cases x rule: truthy.cases) (simp_all add: prop_or_undefined_def)

lemma checkRateLimit_try_eq:
  "checkRateLimit_try parseInt v =
     (case get_prop (Val v) ''error'' of
        Inl e \<Rightarrow> Inl e
      | Inr err \<Rightarrow> Inr (if rate_limit_shaped err then (True, resumeAt_truthy parseInt v)
                         else (False, None)))"
proof (cases "get_prop (Val v) ''error''")
  case (Inl e)
  then show ?thesis by (simp add: checkRateLimit_try_def)
next
  case (Inr err)
  then have err: "prop_or_undefined (Val v) ''error'' = err"
    by (simp add: prop_or_undefined_def)
  show ?thesis
  proof (cases "rate_limit_shaped err")
    case False
    then show ?thesis
      using Inr by (cases "truthy err") (simp_all add: checkRateLimit_try_def is_rate_limit_error_eq)
  next
    case True
    then have t: "truthy err" by (rule rate_limit_shaped_truthy)
    have vt: "truthy (Val v)" using Inr t by (cases v) auto
    let ?own = "first_truthy_header (prop_or_undefined err ''headers'')"
    let ?top = "first_truthy_header (prop_or_undefined (Val v) ''headers'')"
    have r1: "bindE (get_prop err ''headers'')
        (\<lambda>h. if truthy h then first_reset h else Inr Undefined) = Inr ?own"
      by (simp add: get_prop_truthy [OF t] first_reset_eq first_truthy_header_falsy)
    have r2: "(if truthy ?own then Inr ?own
        else bindE (get_prop (Val v) ''headers'')
               (\<lambda>h. if truthy h then first_reset h else Inr ?own)) =
        Inr (if truthy ?own then ?own else ?top)"
    proof (cases "truthy ?own")
      case True
      then show ?thesis by simp
    next
      case False
      with first_truthy_header_truthy [of "prop_or_undefined err ''headers''"]
      have "?own = Undefined" by simp
      then show ?thesis
        by (simp add: get_prop_truthy [OF vt] first_reset_eq first_truthy_header_falsy)
    qed
    let ?r = "if truthy ?own then ?own else ?top"
    have rt: "?r = Undefined \<or> truthy ?r"
      using first_truthy_header_truthy [of "prop_or_undefined (Val v) ''headers''"] by auto
    have fin: "(case ?r of
         Val x \<Rightarrow> if truthy ?r then Inr (True, Some (parseInt x)) else Inr (True, None)
       | Undefined \<Rightarrow> Inr (True, None)) = Inr (True, resumeAt_truthy parseInt v)"
      using rt by (cases ?r) (simp_all add: resumeAt_truthy_def err Let_def)
    have "checkRateLimit_try parseInt v =
        bindE (bindE (get_prop err ''headers'')
                 (\<lambda>h. if truthy h then first_reset h else Inr Undefined)) (\<lambda>r1.
        bindE (if truthy r1 then Inr r1
               else bindE (get_prop (Val v) ''headers'')
                      (\<lambda>h. if truthy h then first_reset h else Inr r1)) (\<lambda>r2.
          case r2 of
            Val x \<Rightarrow> if truthy r2 then Inr (True, Some (parseInt x)) else Inr (True, None)
          | Undefined \<Rightarrow> Inr (True, None)))"
      using Inr t True by (simp add: checkRateLimit_try_def is_rate_limit_error_eq)
    also have "\<dots> = Inr (True, resumeAt_truthy parseInt v)"
      by (simp only: r1 bindE_simps r2 fin)
    finally show ?thesis using Inr True by simp
  qed
qed

text \<open>
  Claim C7, as the code has it. For a body that parses, \<open>checkRateLimit\<close> answers
  "limited" exactly when the error field is an object whose type or code is the sentinel
  \<open>rate_limit_exceeded\<close>, or a string containing \<open>rate limit\<close>, \<open>rate_limit\<close> or
  \<open>too many requests\<close>. When limited, the reset time is what \<open>parseInt\<close> in base 10
  makes of the first truthy value among the three header names, looked up in the header map of the error
  object first and in the top-level header map when that gave nothing; it is absent when no
  header has a truthy value.
\<close>

theorem checkRateLimit_limited:
  assumes "JSON_parse body = Some v"
  shows "checkRateLimit JSON_parse parseInt body =
           (if rate_limit_shaped (prop_or_undefined (Val v) ''error'')
            then (True, resumeAt_truthy parseInt v) else (False, None))"
  using assms
  by (cases "get_prop (Val v) ''error''")
    (simp_all add: checkRateLimit_def checkRateLimit_try_eq prop_or_undefined_def)

theorem checkRateLimit_limited_witness:
  "example_JSON_parse body_top_header = Some json_top_header \<and>
   checkRateLimit example_JSON_parse example_parseInt body_top_header = (True, Some (Num 1700000030000))"
  using checkRateLimit_limited [of example_JSON_parse body_top_header json_top_header
      example_parseInt]
  by (simp add: example_JSON_parse_def body_top_header_def body_reset_zero_def
      json_top_header_def prop_or_undefined_def resumeAt_truthy_def first_truthy_header_def
      reset_names_def Let_def example_parseInt_def)

text \<open>
  The claim as written fails: the error object's header map has the first header present with
  the value 0 and the second with the text 99. The first present value is 0; the code passes
  over it and answers 99.
\<close>

theorem checkRateLimit_skips_present_zero_header:
  "checkRateLimit example_JSON_parse example_parseInt body_reset_zero = (True, Some (Num 99)) \<and>
   example_JSON_parse body_reset_zero = Some json_reset_zero \<and>
   resumeAt_present json_reset_zero = Some (JNum (Double 0 0)) \<and>
   example_parseInt (JNum (Double 0 0)) = Num 0"
  by (simp add: example_JSON_parse_def checkRateLimit_def checkRateLimit_try_def
      json_reset_zero_def is_rate_limit_error_def first_reset_def
      resumeAt_present_def first_present_header_def prop_or_undefined_def reset_names_def
      Let_def example_parseInt_def)

text \<open>
  Claim C6. \<open>checkRateLimit\<close> is a total function into pairs, so it returns and throws
  nothing, whatever the body and whatever \<open>JSON.parse\<close> does with it. When the body does
  not parse, or parses to a value without an \<open>error\<close> field (\<open>null\<close>, a number, a
  string, an array, or an object that lacks the property), the answer is "not limited" with
  no reset time.
\<close>

theorem checkRateLimit_no_signal:
  assumes "JSON_parse body = None \<or>
           (\<exists>v. JSON_parse body = Some v \<and> \<not> has_field v ''error'')"
  shows "checkRateLimit JSON_parse parseInt body = (False, None)"
  using assms
proof (elim disjE exE conjE)
  assume "JSON_parse body = None"
  then show ?thesis by (simp add: checkRateLimit_def)
next
  fix v
  assume "JSON_parse body = Some v" "\<not> has_field v ''error''"
  then show ?thesis
    by (cases v) (simp_all add: checkRateLimit_def checkRateLimit_try_def)
qed

theorem checkRateLimit_no_signal_witness:
  "(example_JSON_parse ''<html>Bad Gateway</html>'' = None \<or>
    (\<exists>v. example_JSON_parse ''<html>Bad Gateway</html>'' = Some v \<and> \<not> has_field v ''error'')) \<and>
   checkRateLimit example_JSON_parse example_parseInt ''<html>Bad Gateway</html>'' = (False, None)"
proof -
  have h: "example_JSON_parse ''<html>Bad Gateway</html>'' = None"
    by (simp add: example_JSON_parse_def body_reset_zero_def body_top_header_def)
  then have h': "example_JSON_parse ''<html>Bad Gateway</html>'' = None \<or>
    (\<exists>v. example_JSON_parse ''<html>Bad Gateway</html>'' = Some v \<and> \<not> has_field v ''error'')"
    by (rule disjI1)
  have "checkRateLimit example_JSON_parse example_parseInt ''<html>Bad Gateway</html>'' = (False, None)"
    using h' by (rule checkRateLimit_no_signal
        [of example_JSON_parse "''<html>Bad Gateway</html>''" example_parseInt])
  with h' show ?thesis by (rule conjI)
qed

lemma every_price_obj:
  "every_price (Val (JObj p)) ks = Inr (list_all (\<lambda>k. map_of p k = Some (JStr ''0'')) ks)"
  by (induction ks) (auto split: option.splits)

lemma every_price_other:
  "truthy pricing \<Longrightarrow> \<forall>p. pricing \<noteq> Val (JObj p) \<Longrightarrow> ks \<noteq> [] \<Longrightarrow>
   every_price pricing ks = Inr False"
  by (cases pricing rule: truthy.cases; cases ks) simp_all

lemma keep_model_eq:
  "model \<noteq> JNull \<Longrightarrow> keep_model model = Inr (pricing_all_zero model)"
proof (cases model)
  case (JObj kvs)
  show ?thesis
  proof (cases "map_of kvs ''pricing''")
    case None
    with JObj show ?thesis by (simp add: keep_model_def)
  next
    case (Some pr)
    show ?thesis
    proof (cases pr)
      case (JObj p)
      with Some \<open>model = JObj kvs\<close> show ?thesis
        by (simp add: keep_model_def every_price_obj, simp add: prices_def)
    qed (use Some \<open>model = JObj kvs\<close> in
         \<open>simp_all add: keep_model_def every_price_other prices_def\<close>)
  qed
qed (simp_all add: keep_model_def)

lemma clear_models_eq:
  "JNull \<notin> set models \<Longrightarrow>
   clear_models models clearData = Inr (clearData @ filter pricing_all_zero models)"
  by (induction models arbitrary: clearData) (simp_all add: keep_model_eq [OF not_sym])

lemma clear_models_null:
  "JNull \<in> set models \<Longrightarrow> clear_models models clearData = Inl TypeError"
proof (induction models arbitrary: clearData)
  case Nil
  then show ?case by simp
next
  case (Cons model models)
  show ?case
  proof (cases "model = JNull")
    case True
    then show ?thesis by (simp add: keep_model_def)
  next
    case False
    with Cons show ?thesis by (simp add: keep_model_eq)
  qed
qed

lemma paid_not_all_zero:
  "map_of kvs ''pricing'' = Some (JObj p) \<Longrightarrow> map_of p ''prompt'' = Some (JStr ''1'') \<Longrightarrow>
   \<not> pricing_all_zero (JObj kvs)"
  by simp

text \<open>
  Claim C8, as the code has it. With the filter switched on (\<open>free_only\<close>), on a body that
  parses to an object whose \<open>data\<close> is a list, \<open>removePaidModels\<close> returns the body
  unchanged when an element of the list is \<open>null\<close> (reading its pricing throws, and the
  error handler gives the body back); otherwise it returns the body unchanged when no
  descriptor has all six prices zero, and else the serialization of the same object with
  \<open>data\<close> replaced by exactly the descriptors whose prompt, completion, request, image,
  web_search and internal_reasoning prices are all the text \<open>0\<close>, in their order. On the
  specification's example, the all-zero descriptor followed by one whose prompt price is 1,
  the list that is left holds the first descriptor only. With the filter switched off the
  body is returned as it is.
\<close>

theorem removePaidModels_keeps_free:
  assumes "JSON_parse body = Some (JObj kvs)"
    and "map_of kvs ''data'' = Some (JArr models)"
  shows "removePaidModels JSON_parse JSON_stringify True body =
           (if JNull \<in> set models then body
            else if filter pricing_all_zero models = [] then body
            else JSON_stringify
                   (JObj (AList.update ''data'' (JArr (filter pricing_all_zero models)) kvs))) \<and>
         (models = [free_model, JObj second] \<and> map_of second ''pricing'' = Some (JObj p) \<and>
          map_of p ''prompt'' = Some (JStr ''1'') \<longrightarrow>
            removePaidModels JSON_parse JSON_stringify True body =
              JSON_stringify (JObj (AList.update ''data'' (JArr [free_model]) kvs))) \<and>
         removePaidModels JSON_parse JSON_stringify False body = body"
proof -
  have main: "removePaidModels JSON_parse JSON_stringify True body =
           (if JNull \<in> set models then body
            else if filter pricing_all_zero models = [] then body
            else JSON_stringify
                   (JObj (AList.update ''data'' (JArr (filter pricing_all_zero models)) kvs)))"
  proof (cases "JNull \<in> set models")
    case True
    with assms show ?thesis
      by (simp add: removePaidModels_def removePaidModels_try_def clear_models_null)
  next
    case False
    with assms show ?thesis
      by (simp add: removePaidModels_def removePaidModels_try_def clear_models_eq)
  qed
  have f: "pricing_all_zero free_model" by (simp add: free_model_def)
  have fn: "free_model \<noteq> JNull" by (simp add: free_model_def)
  have "filter pricing_all_zero models = [free_model] \<and> JNull \<notin> set models"
    if "models = [free_model, JObj second]" "map_of second ''pricing'' = Some (JObj p)"
      "map_of p ''prompt'' = Some (JStr ''1'')"
    using that f fn paid_not_all_zero [of second p] by simp
  moreover have "removePaidModels JSON_parse JSON_stringify False body = body"
    by (simp add: removePaidModels_def)
  ultimately show ?thesis using main by simp
qed

theorem removePaidModels_keeps_free_witness:
  "removePaidModels catalog_JSON_parse catalog_JSON_stringify True body_catalog
     = body_catalog_free \<and>
   removePaidModels catalog_JSON_parse catalog_JSON_stringify True body_catalog_paid
     = body_catalog_paid"
proof -
  have neq: "body_catalog_paid \<noteq> body_catalog"
    by (simp add: body_catalog_paid_def body_catalog_def)
  have p1: "catalog_JSON_parse body_catalog = Some (JObj [(''data'', JArr [free_model, paid_model])])"
    by (simp add: catalog_JSON_parse_def)
  have p2: "catalog_JSON_parse body_catalog_paid =
      Some (JObj [(''data'', JArr [paid_reasoning_model])])"
    using neq by (simp add: catalog_JSON_parse_def)
  have f: "pricing_all_zero free_model" by (simp add: free_model_def)
  have p: "\<not> pricing_all_zero paid_model" by (simp add: paid_model_def)
  have r: "\<not> pricing_all_zero paid_reasoning_model" by (simp add: paid_reasoning_model_def)
  have nn: "JNull \<notin> set [free_model, paid_model]" "JNull \<notin> set [paid_reasoning_model]"
    by (simp_all add: free_model_def paid_model_def paid_reasoning_model_def)
  have d: "map_of [(''data'', JArr ms)] ''data'' = Some (JArr ms)" for ms :: "json list" by simp
  have ex: "[free_model, paid_model] = [free_model, JObj [(''pricing'', JObj
        [(''prompt'', JStr ''1''), (''completion'', JStr ''0''), (''request'', JStr ''0''),
         (''image'', JStr ''0''), (''web_search'', JStr ''0''),
         (''internal_reasoning'', JStr ''0'')])]] \<and>
      map_of [(''pricing'', JObj
        [(''prompt'', JStr ''1''), (''completion'', JStr ''0''), (''request'', JStr ''0''),
         (''image'', JStr ''0''), (''web_search'', JStr ''0''),
         (''internal_reasoning'', JStr ''0'')])] ''pricing'' = Some (JObj
        [(''prompt'', JStr ''1''), (''completion'', JStr ''0''), (''request'', JStr ''0''),
         (''image'', JStr ''0''), (''web_search'', JStr ''0''),
         (''internal_reasoning'', JStr ''0'')]) \<and>
      map_of [(''prompt'', JStr ''1''), (''completion'', JStr ''0''), (''request'', JStr ''0''),
         (''image'', JStr ''0''), (''web_search'', JStr ''0''),
         (''internal_reasoning'', JStr ''0'')] ''prompt'' = Some (JStr ''1'')"
    by (simp add: paid_model_def)
  note t0 = removePaidModels_keeps_free [where JSON_parse = catalog_JSON_parse
      and body = body_catalog and kvs = "[(''data'', JArr [free_model, paid_model])]"
      and models = "[free_model, paid_model]" and JSON_stringify = catalog_JSON_stringify,
      OF p1 d, THEN conjunct2, THEN conjunct1, rule_format, OF ex]
  note t1 = removePaidModels_keeps_free [where JSON_parse = catalog_JSON_parse
      and body = body_catalog and kvs = "[(''data'', JArr [free_model, paid_model])]"
      and models = "[free_model, paid_model]" and JSON_stringify = catalog_JSON_stringify,
      OF p1 d, THEN conjunct1]
  note t2 = removePaidModels_keeps_free [where JSON_parse = catalog_JSON_parse
      and body = body_catalog_paid and kvs = "[(''data'', JArr [paid_reasoning_model])]"
      and models = "[paid_reasoning_model]" and JSON_stringify = catalog_JSON_stringify,
      OF p2 d, THEN conjunct1]
  from t0 t1 t2 f p r nn show ?thesis by (simp add: catalog_JSON_stringify_def)
qed

text \<open>
  The claim as written fails: the list holds \<open>null\<close> and then a descriptor whose prices
  are all zero. Filtering would leave that descriptor, a list that is not empty; the code
  returns the body as it came, \<open>null\<close> element and all.
\<close>

theorem removePaidModels_gives_up_on_null:
  "catalog_JSON_parse body_catalog_null = Some (JObj [(''data'', JArr [JNull, free_model])]) \<and>
   filter pricing_all_zero [JNull, free_model] = [free_model] \<and>
   removePaidModels catalog_JSON_parse catalog_JSON_stringify True body_catalog_null
     = body_catalog_null"
  by (simp add: catalog_JSON_parse_def body_catalog_null_def body_catalog_def
      body_catalog_paid_def removePaidModels_def removePaidModels_try_def keep_model_def
      free_model_def)

text \<open>
  Claim C9. On a path that is not public, when \<open>verifyAccessKey\<close> throws, the handler
  answers with status 401 and the error, and the key manager is as it was: cursor, penalty
  map and all; \<open>getNextKey\<close> is not reached.
\<close>

theorem unauthorized_leaves_pool_alone:
  assumes "\<not> isPublic cfg path"
    and "verifyAccessKey (access_key cfg) authorization = Inl e"
  shows "router_all cfg tz sched now path authorization keyManager = (Respond 401 (Some e), keyManager)"
  using assms by (simp add: router_all_def)

theorem unauthorized_leaves_pool_alone_witness:
  "\<not> isPublic example_config ''chat/completions'' \<and>
   verifyAccessKey (access_key example_config) (Some ''Bearer wrong'') = Inl InvalidAccessKey \<and>
   router_all example_config utc_zone [] 1700000000000 ''chat/completions'' (Some ''Bearer wrong'') pool_ab
     = (Respond 401 (Some InvalidAccessKey), pool_ab)"
proof -
  have np: "\<not> isPublic example_config ''chat/completions''"
    by (simp add: isPublic_def example_config_def)
  have v: "verifyAccessKey (access_key example_config) (Some ''Bearer wrong'') = Inl InvalidAccessKey"
    by (simp add: verifyAccessKey_def example_config_def bearer_match_def is_space_def)
  from unauthorized_leaves_pool_alone [OF np v] np v show ?thesis by simp
qed

text \<open>
  Claim C10. With the empty string as configured access key, \<open>verifyAccessKey\<close> returns
  true whatever the authorization header is, absent or malformed included, and the handler
  never answers 401.
\<close>

theorem empty_access_key_admits_everything:
  "verifyAccessKey [] authorization = Inr True \<and>
   (access_key cfg = [] \<longrightarrow>
      (\<forall>e. fst (router_all cfg tz sched now path authorization keyManager) \<noteq> Respond 401 e))"
  by (auto simp: verifyAccessKey_def router_all_def split: prod.splits option.splits)

theorem empty_access_key_admits_everything_witness:
  "verifyAccessKey [] (Some ''garbage'') = Inr True \<and>
   fst (router_all (example_config\<lparr>access_key := []\<rparr>) utc_zone [] 1700000000000 ''chat/completions''
          None pool_ab) = Dispatch ''a''"
proof -
  have "fst (router_all (example_config\<lparr>access_key := []\<rparr>) utc_zone [] 1700000000000
      ''chat/completions'' None pool_ab) = Dispatch ''a''"
    by (simp add: router_all_def example_config_def isPublic_def verifyAccessKey_def
        pool_ab_def attempt_def Let_def setCooldown_def)
  with empty_access_key_admits_everything [of "Some ''garbage''"] show ?thesis by simp
qed

lemma drain_concat: "concat (fst (drain buf)) @ snd (drain buf) = buf"
proof (induction buf rule: drain.induct)
  case (1 buf)
  show ?case
  proof (cases "indexOf buf [CHR 0x0A, CHR 0x0A]")
    case None
    then show ?thesis by (subst (1 2) drain.simps) simp
  next
    case (Some idx)
    with 1 [OF Some] show ?thesis
      by (subst (1 2) drain.simps) (simp add: split_beta)
  qed
qed

lemma on_data_length:
  "length (concat (written (on_data c st))) + length (buffer (on_data c st)) =
     length (concat (written st)) + length (buffer st) + length c +
     (if is_comment_chunk c then length c else 0)"
proof (cases "is_comment_chunk c")
  case True
  then show ?thesis by (simp add: on_data_def is_comment_chunk_def Let_def)
next
  case False
  have "length (concat (fst (drain (buffer st @ c)))) + length (snd (drain (buffer st @ c))) =
      length (buffer st @ c)"
    using drain_concat [of "buffer st @ c"] by (metis length_append)
  with False show ?thesis
    by (simp add: on_data_def is_comment_chunk_def Let_def split_beta)
qed

lemma fold_on_data_length:
  "length (concat (written (fold on_data chunks st))) + length (buffer (fold on_data chunks st)) =
     length (concat (written st)) + length (buffer st) + length (concat chunks) +
     sum_list (map length (filter is_comment_chunk chunks))"
proof (induction chunks arbitrary: st)
  case Nil
  then show ?case by simp
next
  case (Cons c chunks)
  from Cons.IH [of "on_data c st"] on_data_length [of c st] show ?case by simp
qed

lemma relay_stream_length:
  "length (concat (relay_stream chunks)) =
     length (concat chunks) + sum_list (map length (filter is_comment_chunk chunks))"
  using fold_on_data_length [of chunks "\<lparr>buffer = [], written = []\<rparr>"]
  by (auto simp: relay_stream_def on_end_def)

lemma relay_stream_never_two_frames:
  assumes "concat chunks = sse_comment @ sse_data" and "[] \<notin> set chunks"
  shows "relay_stream chunks \<noteq> [sse_comment, sse_data]"
proof
  assume eq: "relay_stream chunks = [sse_comment, sse_data]"
  from assms obtain c cs where cs: "chunks = c # cs" "c \<noteq> []"
    by (cases chunks) (auto simp: sse_comment_def)
  with assms(1) have "hd c = CHR '':''"
    by (cases c) (auto simp: sse_comment_def)
  with cs have "is_comment_chunk c"
    by (cases c) (auto simp: is_comment_chunk_def trimStart_def is_space_def)
  with cs have "0 < sum_list (map length (filter is_comment_chunk chunks))" by simp
  with relay_stream_length [of chunks] assms(1)
  have "length (concat (relay_stream chunks)) > length (sse_comment @ sse_data)" by simp
  with eq show False by simp
qed

text \<open>
  Claim C5 does not hold of the code. The \<open>data\<close> handler appends every chunk to the
  buffer before it looks for a comment, and a comment chunk is written at once but stays in
  the buffer, to be written again later. Fed the bytes of the claim in one chunk, the relay
  writes the whole chunk twice; fed the comment frame and the data frame as two chunks, it
  writes the comment frame twice and then the data frame. By
  \<open>relay_stream_never_two_frames\<close> no way of cutting these bytes into chunks gives the
  two frames once each.
\<close>

theorem relay_repeats_comment_chunk:
  "relay_stream [sse_comment @ sse_data] = [sse_comment @ sse_data, sse_comment @ sse_data] \<and>
   relay_stream [sse_comment, sse_data] = [sse_comment, sse_comment, sse_data]"
  by (simp add: relay_stream_def on_data_def on_end_def sse_comment_def sse_data_def
      trimStart_def is_space_def Let_def)


end
